theory Spec2Isabelle
  imports Main "HOL-Library.Sublist"
begin

section \<open>Python values used by \<open>uie/extraction/predict_parser/utils.py\<close>\<close>

text \<open>
  A Python \<open>str\<close> is a sequence of Unicode code points, so a string is a list of
  naturals (one per code point), not a list of 8-bit characters: the lazy wildcard of
  the source consumes one code point such as U+00CD, not one byte of its encoding.
\<close>

type_synonym ustr = "nat list"

definition ascii :: "string \<Rightarrow> ustr" where
  "ascii s = map of_char s"

text \<open>Exceptions of the Python run, as values.\<close>

datatype re_error = BadEscapeEnd | NothingToRepeat | MultipleRepeat

datatype error =
    ValueError
  | KeyError
  | IndexError
  | ReError re_error
  | Unsupported

text \<open>
  \<open>Unsupported\<close> is not a Python exception: it marks a pattern that uses syntax of the
  \<open>re\<close> library which the model of the library below does not cover (groups, character
  sets, counted repetition, possessive quantifiers, alphanumeric escapes other than
  \<open>\s\<close> and \<open>\S\<close>). Such syntax is reachable only from a span fragment that holds a
  backslash or an opening brace.
\<close>

subsection \<open>Whitespace, \<open>str.strip\<close>, \<open>in\<close>, \<open>str.split\<close>, \<open>str.join\<close>, \<open>str.find\<close>\<close>

text \<open>
  The code points for which \<open>str.isspace\<close> holds; \<open>str.strip()\<close> and the class
  \<open>\s\<close> of \<open>re\<close> on \<open>str\<close> patterns use the same set.
\<close>

definition isspace :: "nat \<Rightarrow> bool" where
  "isspace c = (c \<in> set [9, 10, 11, 12, 13, 28, 29, 30, 31, 32, 133, 160, 5760,
      8192, 8193, 8194, 8195, 8196, 8197, 8198, 8199, 8200, 8201, 8202,
      8232, 8233, 8239, 8287, 12288])"

definition strip :: "ustr \<Rightarrow> ustr" where
  "strip s = rev (dropWhile isspace (rev (dropWhile isspace s)))"

text \<open>\<open>sub in s\<close>: \<open>sub\<close> occurs in \<open>s\<close> as a contiguous slice.\<close>

fun contains :: "ustr \<Rightarrow> ustr \<Rightarrow> bool" where
  "contains sub [] = (sub = [])"
| "contains sub (c # cs) = (prefix sub (c # cs) \<or> contains sub cs)"

text \<open>
  \<open>s.split(sep)\<close>: cut at the non-overlapping occurrences of \<open>sep\<close>, found left to
  right; an empty separator raises \<open>ValueError\<close>.
\<close>

fun split_on :: "ustr \<Rightarrow> ustr \<Rightarrow> ustr list" where
  "split_on sep [] = [[]]"
| "split_on sep (c # cs) =
     (if prefix sep (c # cs) then [] # split_on sep (drop (length sep - 1) cs)
      else (case split_on sep cs of
              [] \<Rightarrow> [[c]]
            | f # fs \<Rightarrow> (c # f) # fs))"

definition split :: "ustr \<Rightarrow> ustr \<Rightarrow> error + ustr list" where
  "split s sep = (if sep = [] then Inl ValueError else Inr (split_on sep s))"

fun join :: "ustr \<Rightarrow> ustr list \<Rightarrow> ustr" where
  "join sep [] = []"
| "join sep [x] = x"
| "join sep (x # y # ys) = x @ sep @ join sep (y # ys)"

text \<open>\<open>s.find(sub)\<close>: the least index where \<open>sub\<close> starts, or \<open>-1\<close>.\<close>

fun find_at :: "ustr \<Rightarrow> ustr \<Rightarrow> nat \<Rightarrow> int" where
  "find_at sub [] i = (if sub = [] then int i else - 1)"
| "find_at sub (c # cs) i = (if prefix sub (c # cs) then int i else find_at sub cs (Suc i))"

definition find :: "ustr \<Rightarrow> ustr \<Rightarrow> int" where
  "find s sub = find_at sub s 0"

text \<open>\<open>xs[i]\<close> and \<open>xs[a:b]\<close> with Python's negative indices.\<close>

definition py_index :: "'a list \<Rightarrow> int \<Rightarrow> error + 'a" where
  "py_index xs i =
     (if 0 \<le> i \<and> i < int (length xs) then Inr (xs ! nat i)
      else if i < 0 \<and> - int (length xs) \<le> i then Inr (xs ! nat (i + int (length xs)))
      else Inl IndexError)"

definition slice_bound :: "nat \<Rightarrow> int \<Rightarrow> nat" where
  "slice_bound n i = (if i < 0 then nat (max 0 (int n + i)) else min n (nat i))"

definition py_slice :: "'a list \<Rightarrow> int \<Rightarrow> int \<Rightarrow> 'a list" where
  "py_slice xs a b =
     (let lo = slice_bound (length xs) a; hi = slice_bound (length xs) b
      in take (hi - lo) (drop lo xs))"

section \<open>The part of the \<open>re\<close> library that the source calls\<close>

text \<open>
  The source calls \<open>re.search(pattern, string)\<close> without flags and reads
  \<open>group()\<close> of the match. A pattern without groups is a list of alternatives
  (separated by \<open>|\<close>), each a sequence of items; a quantifier applies to the single
  character matcher before it. The flag of a quantifier is \<open>True\<close> for the greedy form
  and \<open>False\<close> for the lazy one (\<open>*?\<close>, \<open>+?\<close>, \<open>??\<close>).
\<close>

datatype atom = Lit nat | Dot | Space | NonSpace

datatype item =
    One atom
  | Star bool atom
  | Plus bool atom
  | Opt bool atom
  | Bol
  | Eol

type_synonym regex = "item list list"

fun atom_ok :: "atom \<Rightarrow> nat \<Rightarrow> bool" where
  "atom_ok (Lit d) c = (c = d)"
| "atom_ok Dot c = (c \<noteq> 10)"
| "atom_ok Space c = isspace c"
| "atom_ok NonSpace c = (\<not> isspace c)"

definition is_digit :: "nat \<Rightarrow> bool" where
  "is_digit c = (48 \<le> c \<and> c \<le> 57)"

definition is_ascii_alnum :: "nat \<Rightarrow> bool" where
  "is_ascii_alnum c = (is_digit c \<or> (65 \<le> c \<and> c \<le> 90) \<or> (97 \<le> c \<and> c \<le> 122))"

text \<open>
  What follows an opening brace decides whether it is a counted repetition
  (\<open>{m}\<close>, \<open>{m,}\<close>, \<open>{,n}\<close>, \<open>{m,n}\<close>) or a literal brace.
\<close>

definition is_repeat :: "ustr \<Rightarrow> bool" where
  "is_repeat p =
     (case dropWhile is_digit p of
        [] \<Rightarrow> False
      | c # r \<Rightarrow>
          if c = 125 then hd p \<noteq> 125
          else if c = 44 then (case dropWhile is_digit r of [] \<Rightarrow> False | d # _ \<Rightarrow> d = 125)
          else False)"

definition quantify :: "nat \<Rightarrow> bool \<Rightarrow> atom \<Rightarrow> item" where
  "quantify q greedy a =
     (if q = 42 then Star greedy a else if q = 43 then Plus greedy a else Opt greedy a)"

text \<open>
  The library reads one token ahead: when the token after a misplaced quantifier is a
  lone backslash that ends the pattern, the error reported is the bad escape.
\<close>

definition repeat_error :: "re_error \<Rightarrow> ustr \<Rightarrow> error" where
  "repeat_error e p = (if p = [92] then ReError BadEscapeEnd else ReError e)"

text \<open>
  The parser reads the pattern left to right; \<open>cur\<close> is the current alternative and
  \<open>done\<close> the finished ones, both in reverse. Code points: 124 \<open>|\<close>, 92 backslash,
  115 \<open>s\<close>, 83 \<open>S\<close>, 94 \<open>^\<close>, 36 \<open>$\<close>, 46 \<open>.\<close>, 42 \<open>*\<close>, 43 \<open>+\<close>, 63 \<open>?\<close>,
  123 \<open>{\<close>, 40 \<open>(\<close>, 41 \<open>)\<close>, 91 \<open>[\<close>.
\<close>

fun parse_re :: "ustr \<Rightarrow> item list \<Rightarrow> item list list \<Rightarrow> error + regex" where
  "parse_re [] cur done = Inr (rev (rev cur # done))"
| "parse_re (c # p) cur done =
     (if c = 124 then parse_re p [] (rev cur # done)
      else if c = 92 then
        (case p of
           [] \<Rightarrow> Inl (ReError BadEscapeEnd)
         | e # p' \<Rightarrow>
             if e = 115 then parse_re p' (One Space # cur) done
             else if e = 83 then parse_re p' (One NonSpace # cur) done
             else if is_ascii_alnum e then Inl Unsupported
             else parse_re p' (One (Lit e) # cur) done)
      else if c = 94 then parse_re p (Bol # cur) done
      else if c = 36 then parse_re p (Eol # cur) done
      else if c = 46 then parse_re p (One Dot # cur) done
      else if c = 42 \<or> c = 43 \<or> c = 63 then
        (case cur of
           [] \<Rightarrow> Inl (repeat_error NothingToRepeat p)
         | One a # cur' \<Rightarrow>
             (case p of
                [] \<Rightarrow> parse_re p (quantify c True a # cur') done
              | q # p' \<Rightarrow>
                  if q = 63 then parse_re p' (quantify c False a # cur') done
                  else if q = 43 then Inl Unsupported
                  else parse_re p (quantify c True a # cur') done)
         | Bol # _ \<Rightarrow> Inl (repeat_error NothingToRepeat p)
         | Eol # _ \<Rightarrow> Inl (repeat_error NothingToRepeat p)
         | _ # _ \<Rightarrow> Inl (repeat_error MultipleRepeat p))
      else if c = 123 then
        (if is_repeat p then Inl Unsupported else parse_re p (One (Lit 123) # cur) done)
      else if c = 40 \<or> c = 41 \<or> c = 91 then Inl Unsupported
      else parse_re p (One (Lit c) # cur) done)"

text \<open>
  Matching one alternative at the head of \<open>s\<close>, by backtracking in the order of the
  library: a greedy quantifier tries the longer expansion first, a lazy one the shorter.
  \<open>n\<close> is the length of the whole subject (\<open>^\<close> matches only at its start; \<open>$\<close>
  at its end or before a final newline). The result is what remains of \<open>s\<close> after the
  first match found.
\<close>

fun match_here :: "nat \<Rightarrow> item list \<Rightarrow> ustr \<Rightarrow> ustr option" where
  "match_here n [] s = Some s"
| "match_here n (Bol # r) s = (if length s = n then match_here n r s else None)"
| "match_here n (Eol # r) s = (if s = [] \<or> s = [10] then match_here n r s else None)"
| "match_here n (One a # r) [] = None"
| "match_here n (One a # r) (c # cs) = (if atom_ok a c then match_here n r cs else None)"
| "match_here n (Plus g a # r) [] = None"
| "match_here n (Plus g a # r) (c # cs) =
     (if atom_ok a c then match_here n (Star g a # r) cs else None)"
| "match_here n (Star g a # r) [] = match_here n r []"
| "match_here n (Star g a # r) (c # cs) =
     (if g then
        (if atom_ok a c then
           (case match_here n (Star g a # r) cs of
              Some x \<Rightarrow> Some x
            | None \<Rightarrow> match_here n r (c # cs))
         else match_here n r (c # cs))
      else
        (case match_here n r (c # cs) of
           Some x \<Rightarrow> Some x
         | None \<Rightarrow> if atom_ok a c then match_here n (Star g a # r) cs else None))"
| "match_here n (Opt g a # r) [] = match_here n r []"
| "match_here n (Opt g a # r) (c # cs) =
     (if g then
        (if atom_ok a c then
           (case match_here n r cs of
              Some x \<Rightarrow> Some x
            | None \<Rightarrow> match_here n r (c # cs))
         else match_here n r (c # cs))
      else
        (case match_here n r (c # cs) of
           Some x \<Rightarrow> Some x
         | None \<Rightarrow> if atom_ok a c then match_here n r cs else None))"

fun match_alt :: "nat \<Rightarrow> regex \<Rightarrow> ustr \<Rightarrow> ustr option" where
  "match_alt n [] s = None"
| "match_alt n (b # bs) s =
     (case match_here n b s of Some x \<Rightarrow> Some x | None \<Rightarrow> match_alt n bs s)"

text \<open>\<open>search\<close> tries the start positions left to right and returns \<open>group()\<close>.\<close>

fun search_from :: "nat \<Rightarrow> regex \<Rightarrow> ustr \<Rightarrow> ustr option" where
  "search_from n re [] =
     (case match_alt n re [] of
        Some x \<Rightarrow> Some []
      | None \<Rightarrow> None)"
| "search_from n re (c # cs) =
     (case match_alt n re (c # cs) of
        Some x \<Rightarrow> Some (take (length (c # cs) - length x) (c # cs))
      | None \<Rightarrow> search_from n re cs)"

definition re_search :: "ustr \<Rightarrow> ustr \<Rightarrow> error + ustr option" where
  "re_search pat string =
     (case parse_re pat [] [] of
        Inl e \<Rightarrow> Inl e
      | Inr re \<Rightarrow> Inr (search_from (length string) re string))"

section \<open>The source functions\<close>

text \<open>\<open>sp = ".*?()[]+"\<close>; each of its characters gets a backslash in front.\<close>

definition sp :: ustr where
  "sp = [46, 42, 63, 40, 41, 91, 93, 43]"

definition clean_wildcard :: "ustr \<Rightarrow> ustr" where
  "clean_wildcard x = concat (map (\<lambda>c. if c \<in> set sp then [92, c] else [c]) x)"

text \<open>The connectors \<open>\s*\S+\s*\<close> and \<open>\s*\S+?\s*\<close>, and the default marker \<open><unk>\<close>.\<close>

definition wildcard :: ustr where
  "wildcard = [92, 115, 42, 92, 83, 43, 92, 115, 42]"

definition wildcard_lazy :: ustr where
  "wildcard_lazy = [92, 115, 42, 92, 83, 43, 63, 92, 115, 42]"

definition default_unk :: ustr where
  "default_unk = [60, 117, 110, 107, 62]"

definition match_pattern :: "ustr \<Rightarrow> ustr \<Rightarrow> error + ustr" where
  "match_pattern span unk =
     (case split span unk of
        Inl e \<Rightarrow> Inl e
      | Inr items \<Rightarrow> Inr (join wildcard (map (\<lambda>item. clean_wildcard (strip item)) items)))"

definition match_reversed_pattern :: "ustr \<Rightarrow> ustr \<Rightarrow> error + ustr" where
  "match_reversed_pattern span unk =
     (case split span unk of
        Inl e \<Rightarrow> Inl e
      | Inr items \<Rightarrow>
          Inr (join wildcard_lazy (rev (map (\<lambda>item. clean_wildcard (rev (strip item))) items))))"

definition fix_unk_from_text_without_tokenizer :: "ustr \<Rightarrow> ustr \<Rightarrow> ustr \<Rightarrow> error + ustr" where
  "fix_unk_from_text_without_tokenizer span text unk =
     (if \<not> contains unk span then Inr span
      else
        (case match_pattern span unk of
           Inl e \<Rightarrow> Inl e
         | Inr match \<Rightarrow>
             (case re_search match text of
                Inl e \<Rightarrow> Inl e
              | Inr result \<Rightarrow>
                  (case match_reversed_pattern span unk of
                     Inl e \<Rightarrow> Inl e
                   | Inr match_reversed \<Rightarrow>
                       (case re_search match_reversed (rev text) of
                          Inl e \<Rightarrow> Inl e
                        | Inr None \<Rightarrow> Inr span
                        | Inr (Some g) \<Rightarrow> Inr (strip (rev g)))))))"

text \<open>
  The tokenizer is an external collaborator: its vocabulary (the items of
  \<open>tokenizer.vocab\<close>, token string to id, in iteration order) and its encoding of a text
  into \<open>input_ids\<close> and \<open>offset_mapping\<close>.
\<close>

record tokenizer =
  vocab :: "(ustr \<times> int) list"
  encode :: "ustr \<Rightarrow> int list \<times> (int \<times> int) list"

text \<open>\<open>{v: k for k, v in vocab.items()}\<close>: a later item overwrites an earlier one.\<close>

definition id2token_of :: "(ustr \<times> int) list \<Rightarrow> (int \<rightharpoonup> ustr)" where
  "id2token_of items = map_of (rev (map (\<lambda>(k, v). (v, k)) items))"

text \<open>\<open>token.replace("\<close>U+2581\<open>", "")\<close>\<close>

definition strip_marker :: "ustr \<Rightarrow> ustr" where
  "strip_marker t = filter (\<lambda>c. c \<noteq> 9601) t"

text \<open>
  The loop of \<open>match_sublist\<close>: \<open>decoded_text\<close> and, for each of its characters, the
  index of the token it comes from.
\<close>

fun decode_loop ::
  "(int \<rightharpoonup> ustr) \<Rightarrow> int list \<Rightarrow> nat \<Rightarrow> ustr \<Rightarrow> nat list \<Rightarrow> error + (ustr \<times> nat list)" where
  "decode_loop id2token [] i decoded_text decoded_offset_mapping =
     Inr (decoded_text, decoded_offset_mapping)"
| "decode_loop id2token (tid # rest) i decoded_text decoded_offset_mapping =
     (case id2token tid of
        None \<Rightarrow> Inl KeyError
      | Some t \<Rightarrow>
          (let token = strip_marker t
           in decode_loop id2token rest (Suc i) (decoded_text @ token)
                (decoded_offset_mapping @ replicate (length token) i)))"

definition match_sublist ::
  "int list \<Rightarrow> ustr \<Rightarrow> (int \<rightharpoonup> ustr) \<Rightarrow> error + (nat \<times> nat) option" where
  "match_sublist the_list to_match id2token =
     (case decode_loop id2token the_list 0 [] [] of
        Inl e \<Rightarrow> Inl e
      | Inr (decoded_text, decoded_offset_mapping) \<Rightarrow>
          (let index = find decoded_text to_match
           in if index = - 1 then Inr None
              else
                (case py_index decoded_offset_mapping index of
                   Inl e \<Rightarrow> Inl e
                 | Inr m0 \<Rightarrow>
                     (case py_index decoded_offset_mapping (index + int (length to_match) - 1) of
                        Inl e \<Rightarrow> Inl e
                      | Inr m1 \<Rightarrow> Inr (Some (m0, m1))))))"

definition fix_unk_from_text_with_tokenizer ::
  "ustr \<Rightarrow> ustr \<Rightarrow> ustr \<Rightarrow> tokenizer \<Rightarrow> error + ustr" where
  "fix_unk_from_text_with_tokenizer span text unk tok =
     (let id2token = id2token_of (vocab tok);
          (tokenized_text, offset_mapping) = encode tok text
      in case match_sublist tokenized_text span id2token of
           Inl e \<Rightarrow> Inl e
         | Inr None \<Rightarrow> fix_unk_from_text_without_tokenizer span text unk
         | Inr (Some (m0, m1)) \<Rightarrow>
             (case py_index offset_mapping (int m0) of
                Inl e \<Rightarrow> Inl e
              | Inr o0 \<Rightarrow>
                  (case py_index offset_mapping (int m1) of
                     Inl e \<Rightarrow> Inl e
                   | Inr o1 \<Rightarrow>
                       (let fixed_span = py_slice text (fst o0) (snd o1)
                        in case match_pattern span unk of
                             Inl e \<Rightarrow> Inl e
                           | Inr match_reversed \<Rightarrow>
                               (case re_search match_reversed fixed_span of
                                  Inl e \<Rightarrow> Inl e
                                | Inr None \<Rightarrow> Inr span
                                | Inr (Some g) \<Rightarrow> Inr (strip g))))))"

definition fix_unk_from_text :: "ustr \<Rightarrow> ustr \<Rightarrow> ustr \<Rightarrow> tokenizer option \<Rightarrow> error + ustr" where
  "fix_unk_from_text span text unk tokenizer =
     (case tokenizer of
        Some tok \<Rightarrow> fix_unk_from_text_with_tokenizer span text unk tok
      | None \<Rightarrow> fix_unk_from_text_without_tokenizer span text unk)"

text \<open>
  The same three functions with the library call \<open>re.search\<close> taken as a parameter
  \<open>search\<close>: a function from a pattern and a subject to an exception, no match, or
  \<open>group()\<close> of a match. Every other line is as above. They state properties that
  hold for the library as a whole, also on patterns outside the syntax that \<open>parse_re\<close>
  reads; the functions above are their instance at \<open>re_search\<close>.
\<close>

definition fix_unk_from_text_without_tokenizer_via ::
  "(ustr \<Rightarrow> ustr \<Rightarrow> error + ustr option) \<Rightarrow> ustr \<Rightarrow> ustr \<Rightarrow> ustr \<Rightarrow> error + ustr" where
  "fix_unk_from_text_without_tokenizer_via search span text unk =
     (if \<not> contains unk span then Inr span
      else
        (case match_pattern span unk of
           Inl e \<Rightarrow> Inl e
         | Inr match \<Rightarrow>
             (case search match text of
                Inl e \<Rightarrow> Inl e
              | Inr result \<Rightarrow>
                  (case match_reversed_pattern span unk of
                     Inl e \<Rightarrow> Inl e
                   | Inr match_reversed \<Rightarrow>
                       (case search match_reversed (rev text) of
                          Inl e \<Rightarrow> Inl e
                        | Inr None \<Rightarrow> Inr span
                        | Inr (Some g) \<Rightarrow> Inr (strip (rev g)))))))"

definition fix_unk_from_text_with_tokenizer_via ::
  "(ustr \<Rightarrow> ustr \<Rightarrow> error + ustr option) \<Rightarrow> ustr \<Rightarrow> ustr \<Rightarrow> ustr \<Rightarrow> tokenizer
     \<Rightarrow> error + ustr" where
  "fix_unk_from_text_with_tokenizer_via search span text unk tok =
     (let id2token = id2token_of (vocab tok);
          (tokenized_text, offset_mapping) = encode tok text
      in case match_sublist tokenized_text span id2token of
           Inl e \<Rightarrow> Inl e
         | Inr None \<Rightarrow> fix_unk_from_text_without_tokenizer_via search span text unk
         | Inr (Some (m0, m1)) \<Rightarrow>
             (case py_index offset_mapping (int m0) of
                Inl e \<Rightarrow> Inl e
              | Inr o0 \<Rightarrow>
                  (case py_index offset_mapping (int m1) of
                     Inl e \<Rightarrow> Inl e
                   | Inr o1 \<Rightarrow>
                       (let fixed_span = py_slice text (fst o0) (snd o1)
                        in case match_pattern span unk of
                             Inl e \<Rightarrow> Inl e
                           | Inr match_reversed \<Rightarrow>
                               (case search match_reversed fixed_span of
                                  Inl e \<Rightarrow> Inl e
                                | Inr None \<Rightarrow> Inr span
                                | Inr (Some g) \<Rightarrow> Inr (strip g))))))"

definition fix_unk_from_text_via ::
  "(ustr \<Rightarrow> ustr \<Rightarrow> error + ustr option) \<Rightarrow> ustr \<Rightarrow> ustr \<Rightarrow> ustr \<Rightarrow> tokenizer option
     \<Rightarrow> error + ustr" where
  "fix_unk_from_text_via search span text unk tokenizer =
     (case tokenizer of
        Some tok \<Rightarrow> fix_unk_from_text_with_tokenizer_via search span text unk tok
      | None \<Rightarrow> fix_unk_from_text_without_tokenizer_via search span text unk)"

text \<open>
  The forward search of the tokenizer-free path, lines 114 and 115 of the source: its
  result is bound to \<open>result\<close> and not read again.
\<close>

definition forward_search :: "ustr \<Rightarrow> ustr \<Rightarrow> ustr \<Rightarrow> error + ustr option" where
  "forward_search span text unk =
     (case match_pattern span unk of
        Inl e \<Rightarrow> Inl e
      | Inr match \<Rightarrow> re_search match text)"

text \<open>
  The variant that the specification compares with the source function: the same
  function with the forward pattern search removed.
\<close>

definition fix_unk_from_text_without_tokenizer_reverse_only ::
  "ustr \<Rightarrow> ustr \<Rightarrow> ustr \<Rightarrow> error + ustr" where
  "fix_unk_from_text_without_tokenizer_reverse_only span text unk =
     (if \<not> contains unk span then Inr span
      else
        (case match_reversed_pattern span unk of
           Inl e \<Rightarrow> Inl e
         | Inr match_reversed \<Rightarrow>
             (case re_search match_reversed (rev text) of
                Inl e \<Rightarrow> Inl e
              | Inr None \<Rightarrow> Inr span
              | Inr (Some g) \<Rightarrow> Inr (strip (rev g)))))"

text \<open>
  A tokenizer over single characters, used to run the tokenizer-assisted path: the
  vocabulary holds \<open>a\<close>, \<open>b\<close> and the space, the id of a token is its code point,
  and token \<open>i\<close> covers the characters \<open>i\<close> to \<open>i + 1\<close> of the text.
\<close>

definition char_tokenizer :: tokenizer where
  "char_tokenizer =
     \<lparr>vocab = [([97], 97), ([98], 98), ([32], 32)],
      encode = (\<lambda>text. (map int text, map (\<lambda>i. (int i, int i + 1)) [0..<length text]))\<rparr>"

section \<open>Notions used to state the properties\<close>

text \<open>
  The strings that a sequence of items can match, anchors aside: the specification
  against which the backtracking matcher is proved sound.
\<close>

fun lang :: "item list \<Rightarrow> ustr \<Rightarrow> bool" where
  "lang [] m = (m = [])"
| "lang (One a # r) m = (\<exists>c m'. m = c # m' \<and> atom_ok a c \<and> lang r m')"
| "lang (Star g a # r) m = (\<exists>p m'. m = p @ m' \<and> list_all (atom_ok a) p \<and> lang r m')"
| "lang (Plus g a # r) m =
     (\<exists>p m'. m = p @ m' \<and> p \<noteq> [] \<and> list_all (atom_ok a) p \<and> lang r m')"
| "lang (Opt g a # r) m = (lang r m \<or> (\<exists>c m'. m = c # m' \<and> atom_ok a c \<and> lang r m'))"
| "lang (Bol # r) m = lang r m"
| "lang (Eol # r) m = lang r m"

text \<open>
  What a placeholder stands for in a recovered span: optional whitespace, at least one
  character that is not whitespace, optional whitespace.
\<close>

definition is_gap :: "ustr \<Rightarrow> bool" where
  "is_gap g =
     (dropWhile isspace g \<noteq> []
      \<and> list_all isspace (dropWhile (\<lambda>c. \<not> isspace c) (dropWhile isspace g)))"

text \<open>Fragments and gaps in turn: \<open>f1 g1 f2 g2 ... fn\<close>.\<close>

fun weave :: "ustr list \<Rightarrow> ustr list \<Rightarrow> ustr" where
  "weave [] gs = []"
| "weave (f # fs) [] = f"
| "weave (f # fs) (g # gs) = f @ g @ weave fs gs"

text \<open>
  The characters special in a pattern that \<open>clean_wildcard\<close> leaves without a
  backslash: the backslash itself, \<open>^\<close>, \<open>$\<close>, \<open>|\<close> and \<open>{\<close>.
\<close>

definition unescaped :: "nat list" where
  "unescaped = [92, 94, 36, 124, 123]"

text \<open>
  The items of the pattern that the source joins from fragments holding no unescaped
  special character: the characters of each fragment as literals, and the connector
  between two fragments.
\<close>

definition lits :: "ustr \<Rightarrow> item list" where
  "lits f = map (\<lambda>c. One (Lit c)) f"

definition connector :: "bool \<Rightarrow> item list" where
  "connector g = [Star True Space, Plus g NonSpace, Star True Space]"

fun pattern_items :: "bool \<Rightarrow> ustr list \<Rightarrow> item list" where
  "pattern_items g [] = []"
| "pattern_items g [f] = lits f"
| "pattern_items g (f # f' # fs) = lits f @ connector g @ pattern_items g (f' # fs)"

text \<open>A string with no whitespace at either end, as \<open>strip\<close> returns it.\<close>

definition trimmed :: "ustr \<Rightarrow> bool" where
  "trimmed f = (f = [] \<or> (\<not> isspace (hd f) \<and> \<not> isspace (last f)))"

text \<open>
  The connector ends in a quantifier; a question mark or a plus sign right after it would
  change the quantifier.
\<close>

definition ok_head :: "ustr \<Rightarrow> bool" where
  "ok_head s = (s = [] \<or> (hd s \<noteq> 63 \<and> hd s \<noteq> 43))"

section \<open>Evaluation\<close>

text \<open>The defining equations that a run of the model on concrete strings unfolds.\<close>

lemmas run_simps =
  fix_unk_from_text_def fix_unk_from_text_without_tokenizer_def
  fix_unk_from_text_with_tokenizer_def ascii_def default_unk_def
  match_pattern_def match_reversed_pattern_def split_def strip_def isspace_def
  clean_wildcard_def sp_def wildcard_def wildcard_lazy_def re_search_def
  is_ascii_alnum_def is_digit_def is_repeat_def quantify_def repeat_error_def

section \<open>A match is a slice of the subject\<close>

lemma match_here_suffix: "match_here n r s = Some x \<Longrightarrow> suffix x s"
  by (induction n r s arbitrary: x rule: match_here.induct)
    (auto split: if_splits option.splits intro: suffix_ConsI)

lemma match_alt_suffix: "match_alt n re s = Some x \<Longrightarrow> suffix x s"
  by (induction re) (auto split: option.splits dest: match_here_suffix)

lemma search_from_sublist: "search_from n re s = Some g \<Longrightarrow> sublist g s"
proof (induction s arbitrary: g)
  case Nil
  then show ?case by (auto split: option.splits)
next
  case (Cons c cs)
  show ?case
  proof (cases "match_alt n re (c # cs)")
    case None
    with Cons.prems have "search_from n re cs = Some g" by simp
    then have "sublist g cs" by (rule Cons.IH)
    then show ?thesis by (simp add: sublist_Cons_right)
  next
    case (Some x)
    with Cons.prems have g: "g = take (length (c # cs) - length x) (c # cs)" by simp
    have "prefix g (c # cs)" unfolding g by (rule take_is_prefix)
    then show ?thesis by (rule prefix_imp_sublist)
  qed
qed

lemma re_search_sublist: "re_search pat t = Inr (Some g) \<Longrightarrow> sublist g t"
  by (auto simp: re_search_def split: sum.splits dest: search_from_sublist)

lemma py_slice_sublist: "sublist (py_slice xs a b) xs"
proof -
  have "sublist (take k (drop l xs)) (drop l xs)" for k l
    by (rule prefix_imp_sublist) (rule take_is_prefix)
  moreover have "sublist (drop l xs) xs" for l
    by (rule suffix_imp_sublist) (rule suffix_drop)
  ultimately show ?thesis
    unfolding py_slice_def Let_def by (blast intro: sublist_order.order_trans)
qed

text \<open>The source functions are the functions over a search parameter, at \<open>re_search\<close>.\<close>

lemma without_tokenizer_via_re_search:
  "fix_unk_from_text_without_tokenizer_via re_search span text unk
   = fix_unk_from_text_without_tokenizer span text unk"
  unfolding fix_unk_from_text_without_tokenizer_via_def
    fix_unk_from_text_without_tokenizer_def ..

lemma with_tokenizer_via_re_search:
  "fix_unk_from_text_with_tokenizer_via re_search span text unk tok
   = fix_unk_from_text_with_tokenizer span text unk tok"
  unfolding fix_unk_from_text_with_tokenizer_via_def fix_unk_from_text_with_tokenizer_def
    without_tokenizer_via_re_search ..

lemma fix_unk_from_text_via_re_search:
  "fix_unk_from_text_via re_search span text unk tokenizer
   = fix_unk_from_text span text unk tokenizer"
  unfolding fix_unk_from_text_via_def fix_unk_from_text_def
    without_tokenizer_via_re_search with_tokenizer_via_re_search ..

lemma without_tokenizer_via_result:
  assumes slice: "\<And>pat s g. search pat s = Inr (Some g) \<Longrightarrow> sublist g s"
    and "fix_unk_from_text_without_tokenizer_via search span text unk = Inr r"
    and "r \<noteq> span"
  shows "\<exists>s. sublist s text \<and> r = strip s"
proof -
  from assms(2,3) obtain p g where g: "search p (rev text) = Inr (Some g)"
    and r: "r = strip (rev g)"
    by (auto simp: fix_unk_from_text_without_tokenizer_via_def
        split: if_splits sum.splits option.splits)
  from g have "sublist g (rev text)" by (rule slice)
  then have "sublist (rev g) text" by (metis sublist_rev rev_rev_ident)
  with r show ?thesis by blast
qed

lemma with_tokenizer_via_result:
  assumes slice: "\<And>pat s g. search pat s = Inr (Some g) \<Longrightarrow> sublist g s"
    and res: "fix_unk_from_text_with_tokenizer_via search span text unk tok = Inr r"
    and ne: "r \<noteq> span"
  shows "\<exists>s. sublist s text \<and> r = strip s"
proof (cases "match_sublist (fst (encode tok text)) span (id2token_of (vocab tok))")
  case (Inl e)
  with res show ?thesis
    by (simp add: fix_unk_from_text_with_tokenizer_via_def split_beta)
next
  case (Inr m)
  show ?thesis
  proof (cases m)
    case None
    with Inr res have "fix_unk_from_text_without_tokenizer_via search span text unk = Inr r"
      by (simp add: fix_unk_from_text_with_tokenizer_via_def split_beta)
    with slice show ?thesis using ne by (rule without_tokenizer_via_result)
  next
    case (Some mm)
    with Inr res ne obtain p a b g where g: "search p (py_slice text a b) = Inr (Some g)"
      and r: "r = strip g"
      by (auto simp: fix_unk_from_text_with_tokenizer_via_def split_beta Let_def
          split: sum.splits option.splits)
    from g have "sublist g (py_slice text a b)" by (rule slice)
    then have "sublist g text"
      using py_slice_sublist by (blast intro: sublist_order.order_trans)
    with r show ?thesis by blast
  qed
qed

text \<open>
  C1 (substring invariant). For every span, text, marker and tokenizer, and for every
  behaviour of the library's search in which \<open>group()\<close> of a match is a contiguous
  slice of the subject searched: whenever \<open>fix_unk_from_text\<close>, with or without a
  tokenizer, returns a string different from the input span, that string is a contiguous
  slice of \<open>text\<close> with the whitespace at its two ends removed. The search is a
  parameter, so the statement does not depend on which pattern syntax \<open>parse_re\<close>
  reads: it covers every pattern that the library compiles.
\<close>

theorem recovered_span_is_trimmed_slice:
  assumes "\<And>pat s g. search pat s = Inr (Some g) \<Longrightarrow> sublist g s"
    and "fix_unk_from_text_via search span text unk tokenizer = Inr r"
    and "r \<noteq> span"
  shows "\<exists>s. sublist s text \<and> r = strip s"
proof (cases tokenizer)
  case None
  with assms(2) have "fix_unk_from_text_without_tokenizer_via search span text unk = Inr r"
    by (simp add: fix_unk_from_text_via_def)
  with assms(1) show ?thesis using assms(3) by (rule without_tokenizer_via_result)
next
  case (Some tok)
  with assms(2) have "fix_unk_from_text_with_tokenizer_via search span text unk tok = Inr r"
    by (simp add: fix_unk_from_text_via_def)
  with assms(1) show ?thesis using assms(3) by (rule with_tokenizer_via_result)
qed

theorem recovered_span_is_trimmed_slice_witness:
  "fix_unk_from_text_via re_search (ascii ''<unk> b'') (ascii ''xx ab c'') default_unk None
     = Inr (ascii ''ab'')
   \<and> ascii ''ab'' \<noteq> ascii ''<unk> b''
   \<and> (\<exists>s. sublist s (ascii ''xx ab c'') \<and> ascii ''ab'' = strip s)"
proof -
  have e: "fix_unk_from_text_via re_search (ascii ''<unk> b'') (ascii ''xx ab c'') default_unk None
      = Inr (ascii ''ab'')"
    unfolding fix_unk_from_text_via_re_search by (simp add: run_simps)
  have n: "ascii ''ab'' \<noteq> ascii ''<unk> b''"
    by (simp add: ascii_def)
  have x: "\<exists>s. sublist s (ascii ''xx ab c'') \<and> ascii ''ab'' = strip s"
    using re_search_sublist e n by (rule recovered_span_is_trimmed_slice [of re_search])
  show ?thesis
  proof (intro conjI)
    show "fix_unk_from_text_via re_search (ascii ''<unk> b'') (ascii ''xx ab c'') default_unk None
      = Inr (ascii ''ab'')" by (rule e)
    show "ascii ''ab'' \<noteq> ascii ''<unk> b''" by (rule n)
    show "\<exists>s. sublist s (ascii ''xx ab c'') \<and> ascii ''ab'' = strip s" by (rule x)
  qed
qed

section \<open>Runs on concrete inputs\<close>

text \<open>
  The nine triples of \<open>test_fix_unk_from_text\<close>, each run through the model. The
  letters outside ASCII are given by their code points: 205, 242, 333, 252 and 304.
\<close>

lemma scenario_1: "fix_unk_from_text (ascii ''<unk> colo e Bengo'')
  (ascii ''At 159 meters above sea level , Angola International Airport is located at '' @ [205] @ ascii ''colo e Bengo , part of Luanda Province , in Angola .'')
  default_unk None = Inr ([205] @ ascii ''colo e Bengo'')"
  by (simp add: run_simps)

lemma scenario_2: "fix_unk_from_text (ascii ''<unk> colo e Bengo'')
  ([205] @ ascii ''colo e Bengo , part of Luanda Province , in Angola .'')
  default_unk None = Inr ([205] @ ascii ''colo e Bengo'')"
  by (simp add: run_simps)

lemma scenario_3: "fix_unk_from_text (ascii ''Arr<unk> s negre'')
  (ascii ''The main ingredients of Arr'' @ [242] @ ascii ''s negre , which is from Spain , are white rice , cuttlefish or squid , cephalopod ink , cubanelle and cubanelle peppers . Arr'' @ [242] @ ascii ''s negre is from the Catalonia region .'')
  default_unk None = Inr (ascii ''Arr'' @ [242] @ ascii ''s negre'')"
  by (simp add: run_simps)

lemma scenario_4: "fix_unk_from_text (ascii ''colo <unk>'')
  (ascii ''At 159 meters above sea level , Angola International Airport is located at e Bengo , part of Luanda Province , in Angola . colo'' @ [205])
  default_unk None = Inr (ascii ''colo'' @ [205])"
  by (simp add: run_simps)

lemma scenario_5: "fix_unk_from_text (ascii ''Tar'' @ [333] @ ascii '' As<unk>'')
  (ascii ''The leader of Japan is Tar'' @ [333] @ ascii '' As'' @ [333] @ ascii '' .'')
  default_unk None = Inr (ascii ''Tar'' @ [333] @ ascii '' As'' @ [333])"
  by (simp add: run_simps)

lemma scenario_6: "fix_unk_from_text (ascii ''Tar<unk> As<unk>'')
  (ascii ''The leader of Japan is Tar'' @ [333] @ ascii '' As'' @ [333] @ ascii '' .'')
  default_unk None = Inr (ascii ''Tar'' @ [333] @ ascii '' As'' @ [333])"
  by (simp add: run_simps)

lemma scenario_7: "fix_unk_from_text (ascii ''<unk>Tar As<unk>'')
  (ascii ''The leader of Japan is '' @ [333] @ ascii ''Tar As'' @ [333] @ ascii '' .'')
  default_unk None = Inr ([333] @ ascii ''Tar As'' @ [333])"
  by (simp add: run_simps)

lemma scenario_8: "fix_unk_from_text (ascii ''Atat'' @ [252] @ ascii ''rk Monument ( <unk> zmir )'')
  (ascii ''The Atat'' @ [252] @ ascii ''rk Monument ( '' @ [304] @ ascii ''zmir ) can be found in Turkey .'')
  default_unk None = Inr (ascii ''Atat'' @ [252] @ ascii ''rk Monument ( '' @ [304] @ ascii ''zmir )'')"
  by (simp add: run_simps)

lemma scenario_9: "fix_unk_from_text (ascii ''The Atat'' @ [252] @ ascii ''rk Monument [ <unk> zmir ]'')
  (ascii ''The Atat'' @ [252] @ ascii ''rk Monument [ '' @ [304] @ ascii ''zmir ] can be found in Turkey .'')
  default_unk None = Inr (ascii ''The Atat'' @ [252] @ ascii ''rk Monument [ '' @ [304] @ ascii ''zmir ]'')"
  by (simp add: run_simps)

text \<open>
  C3 (concrete scenarios, tokenizer-free path). Called without a tokenizer and with the
  default marker, \<open>fix_unk_from_text\<close> returns the expected string for every
  (span, text) pair of the self-test of the source; the five scenarios of the specification
  are the first, third, fourth, fifth and seventh.
\<close>

theorem test_fix_unk_from_text:
  "fix_unk_from_text (ascii ''<unk> colo e Bengo'')
  (ascii ''At 159 meters above sea level , Angola International Airport is located at '' @ [205] @ ascii ''colo e Bengo , part of Luanda Province , in Angola .'')
  default_unk None = Inr ([205] @ ascii ''colo e Bengo'')
   \<and> fix_unk_from_text (ascii ''<unk> colo e Bengo'')
  ([205] @ ascii ''colo e Bengo , part of Luanda Province , in Angola .'')
  default_unk None = Inr ([205] @ ascii ''colo e Bengo'')
   \<and> fix_unk_from_text (ascii ''Arr<unk> s negre'')
  (ascii ''The main ingredients of Arr'' @ [242] @ ascii ''s negre , which is from Spain , are white rice , cuttlefish or squid , cephalopod ink , cubanelle and cubanelle peppers . Arr'' @ [242] @ ascii ''s negre is from the Catalonia region .'')
  default_unk None = Inr (ascii ''Arr'' @ [242] @ ascii ''s negre'')
   \<and> fix_unk_from_text (ascii ''colo <unk>'')
  (ascii ''At 159 meters above sea level , Angola International Airport is located at e Bengo , part of Luanda Province , in Angola . colo'' @ [205])
  default_unk None = Inr (ascii ''colo'' @ [205])
   \<and> fix_unk_from_text (ascii ''Tar'' @ [333] @ ascii '' As<unk>'')
  (ascii ''The leader of Japan is Tar'' @ [333] @ ascii '' As'' @ [333] @ ascii '' .'')
  default_unk None = Inr (ascii ''Tar'' @ [333] @ ascii '' As'' @ [333])
   \<and> fix_unk_from_text (ascii ''Tar<unk> As<unk>'')
  (ascii ''The leader of Japan is Tar'' @ [333] @ ascii '' As'' @ [333] @ ascii '' .'')
  default_unk None = Inr (ascii ''Tar'' @ [333] @ ascii '' As'' @ [333])
   \<and> fix_unk_from_text (ascii ''<unk>Tar As<unk>'')
  (ascii ''The leader of Japan is '' @ [333] @ ascii ''Tar As'' @ [333] @ ascii '' .'')
  default_unk None = Inr ([333] @ ascii ''Tar As'' @ [333])
   \<and> fix_unk_from_text (ascii ''Atat'' @ [252] @ ascii ''rk Monument ( <unk> zmir )'')
  (ascii ''The Atat'' @ [252] @ ascii ''rk Monument ( '' @ [304] @ ascii ''zmir ) can be found in Turkey .'')
  default_unk None = Inr (ascii ''Atat'' @ [252] @ ascii ''rk Monument ( '' @ [304] @ ascii ''zmir )'')
   \<and> fix_unk_from_text (ascii ''The Atat'' @ [252] @ ascii ''rk Monument [ <unk> zmir ]'')
  (ascii ''The Atat'' @ [252] @ ascii ''rk Monument [ '' @ [304] @ ascii ''zmir ] can be found in Turkey .'')
  default_unk None = Inr (ascii ''The Atat'' @ [252] @ ascii ''rk Monument [ '' @ [304] @ ascii ''zmir ]'')"
  using scenario_1 scenario_2 scenario_3 scenario_4 scenario_5 scenario_6 scenario_7 scenario_8 scenario_9
  by blast

section \<open>The tokenizer-assisted path\<close>

text \<open>
  C7 (fallback equality). If the sublist search over the encoded text, called with the
  span as it is, finds no match, the tokenizer-assisted function returns exactly what the
  tokenizer-free function returns on the same span, text and marker.
\<close>

theorem with_tokenizer_falls_back:
  assumes "match_sublist (fst (encode tok text)) span (id2token_of (vocab tok)) = Inr None"
  shows "fix_unk_from_text_with_tokenizer span text unk tok
         = fix_unk_from_text_without_tokenizer span text unk"
  using assms by (simp add: fix_unk_from_text_with_tokenizer_def split_beta)

lemmas tokenizer_simps =
  char_tokenizer_def match_sublist_def id2token_of_def strip_marker_def find_def
  py_index_def py_slice_def slice_bound_def

theorem with_tokenizer_falls_back_witness:
  "match_sublist (fst (encode char_tokenizer (ascii ''b a''))) (ascii ''<unk> a'')
     (id2token_of (vocab char_tokenizer)) = Inr None
   \<and> fix_unk_from_text_with_tokenizer (ascii ''<unk> a'') (ascii ''b a'') default_unk char_tokenizer
       = fix_unk_from_text_without_tokenizer (ascii ''<unk> a'') (ascii ''b a'') default_unk"
proof -
  have h: "match_sublist (fst (encode char_tokenizer (ascii ''b a''))) (ascii ''<unk> a'')
     (id2token_of (vocab char_tokenizer)) = Inr None"
    by (simp add: tokenizer_simps ascii_def)
  from h with_tokenizer_falls_back [OF h] show ?thesis by blast
qed

text \<open>
  Without a placeholder in the span, the tokenizer-free path returns the span, and so does
  the tokenizer-assisted path whenever the sublist search finds no match.
\<close>

lemma without_tokenizer_identity:
  "\<not> contains unk span \<Longrightarrow> fix_unk_from_text span text unk None = Inr span"
  by (simp add: fix_unk_from_text_def fix_unk_from_text_without_tokenizer_def)

text \<open>
  C2 (identity on placeholder-free input). The tokenizer-assisted path has no check for
  the marker. On the span \<open>a\<close> followed by a space, which does not hold the marker,
  and the text \<open>a b\<close>, the sublist search succeeds, the pattern is built from the
  trimmed span, and the function returns \<open>a\<close> without the space: not the span.
\<close>

theorem with_tokenizer_changes_placeholder_free_span:
  "\<not> contains default_unk (ascii ''a '')
   \<and> fix_unk_from_text (ascii ''a '') (ascii ''a b'') default_unk (Some char_tokenizer)
       = Inr (ascii ''a'')
   \<and> ascii ''a'' \<noteq> ascii ''a ''"
  by (simp add: run_simps tokenizer_simps)

section \<open>Fragments that are not escaped\<close>

text \<open>
  C5 (no exception). \<open>clean_wildcard\<close> puts a backslash before the eight characters
  of \<open>sp\<close> only. On the span made of a backslash and the marker, the reversed pattern is
  the lazy connector followed by a lone backslash, and compiling it raises \<open>re.error\<close>
  (bad escape at the end of the pattern), whatever the text.
\<close>

theorem backslash_span_raises:
  "fix_unk_from_text_without_tokenizer ([92] @ default_unk) text default_unk
     = Inl (ReError BadEscapeEnd)"
  by (simp add: run_simps)

text \<open>
  When the forward search returns, the function is decided by the reverse search alone.
\<close>

lemma no_reverse_match_returns_span:
  assumes "contains unk span"
    and "forward_search span text unk = Inr result"
    and "match_reversed_pattern span unk = Inr match_reversed"
    and "re_search match_reversed (rev text) = Inr None"
  shows "fix_unk_from_text_without_tokenizer span text unk = Inr span"
  using assms
  by (auto simp: fix_unk_from_text_without_tokenizer_def forward_search_def split: sum.splits)

lemma reverse_only_agrees:
  assumes "forward_search span text unk = Inr result"
  shows "fix_unk_from_text_without_tokenizer_reverse_only span text unk
         = fix_unk_from_text_without_tokenizer span text unk"
  using assms
  by (auto simp: fix_unk_from_text_without_tokenizer_def forward_search_def
      fix_unk_from_text_without_tokenizer_reverse_only_def split: sum.splits)

lemma returns_then_reverse_only:
  assumes "fix_unk_from_text_without_tokenizer span text unk = Inr r"
  shows "fix_unk_from_text_without_tokenizer_reverse_only span text unk = Inr r"
  using assms
  by (auto simp: fix_unk_from_text_without_tokenizer_def
      fix_unk_from_text_without_tokenizer_reverse_only_def split: sum.splits if_splits)

text \<open>
  C6 (no-match fallback). On the span made of the marker and a backslash, and the text
  \<open>abc\<close>, the reversed pattern is the backslash followed by the lazy connector; it is
  read as an escaped backslash and the rest of the connector, it is valid, and it has no
  match in the reversed text. But the forward pattern ends in a lone backslash: the
  forward search raises before the reverse search is reached, and the span is not
  returned.
\<close>

theorem no_reverse_match_but_forward_raises:
  "contains default_unk (default_unk @ [92])
   \<and> match_reversed_pattern (default_unk @ [92]) default_unk = Inr ([92] @ wildcard_lazy)
   \<and> re_search ([92] @ wildcard_lazy) (rev (ascii ''abc'')) = Inr None
   \<and> fix_unk_from_text_without_tokenizer (default_unk @ [92]) (ascii ''abc'') default_unk
       = Inl (ReError BadEscapeEnd)"
  by (simp add: run_simps)

text \<open>
  C8 (forward-search irrelevance). On the same input the function with the forward search
  removed returns the span, while the source function raises.
\<close>

theorem reverse_only_differs_when_forward_raises:
  "fix_unk_from_text_without_tokenizer (default_unk @ [92]) (ascii ''abc'') default_unk
     = Inl (ReError BadEscapeEnd)
   \<and> fix_unk_from_text_without_tokenizer_reverse_only (default_unk @ [92]) (ascii ''abc'')
       default_unk = Inr (default_unk @ [92])"
  by (simp add: run_simps fix_unk_from_text_without_tokenizer_reverse_only_def)

section \<open>The span that is the marker alone\<close>

lemma contains_self: "contains s s"
  by (cases s) simp_all

lemma split_on_self: "sep \<noteq> [] \<Longrightarrow> split_on sep sep = [[], []]"
  by (cases sep) simp_all

lemma parse_wildcard:
  "parse_re wildcard [] [] = Inr [[Star True Space, Plus True NonSpace, Star True Space]]"
  by (simp add: wildcard_def quantify_def is_ascii_alnum_def is_digit_def)

lemma parse_wildcard_lazy:
  "parse_re wildcard_lazy [] [] = Inr [[Star True Space, Plus False NonSpace, Star True Space]]"
  by (simp add: wildcard_lazy_def quantify_def is_ascii_alnum_def is_digit_def)

lemma strip_Nil: "strip [] = []"
  by (simp add: strip_def)

lemma patterns_of_marker:
  assumes "unk \<noteq> []"
  shows "match_pattern unk unk = Inr wildcard"
    and "match_reversed_pattern unk unk = Inr wildcard_lazy"
  using assms
  by (simp_all add: match_pattern_def match_reversed_pattern_def split_def split_on_self
      strip_Nil clean_wildcard_def)

lemma star_space_end: "match_here n [Star True Space] s = Some (dropWhile isspace s)"
  by (induction s) simp_all

lemma lazy_word:
  "\<not> isspace c \<Longrightarrow>
   match_here n [Plus False NonSpace, Star True Space] (c # rest) = Some (dropWhile isspace rest)"
  by (cases rest) (simp_all add: star_space_end)

lemma star_space_prefix:
  assumes "\<forall>x\<in>set ws. isspace x" and "\<not> isspace c" and "match_here n r (c # rest) = Some x"
  shows "match_here n (Star True Space # r) (ws @ c # rest) = Some x"
  using assms by (induction ws) simp_all

lemma star_space_only:
  "\<forall>x\<in>set s. isspace x \<Longrightarrow> match_here n (Star True Space # Plus g NonSpace # r) s = None"
  by (induction s) simp_all

lemma search_spaces_only:
  "\<forall>x\<in>set s. isspace x \<Longrightarrow> search_from n [Star True Space # Plus g NonSpace # r] s = None"
  by (induction s) (simp_all add: star_space_only)

lemma strip_around:
  assumes "\<forall>x\<in>set a. isspace x" and "\<forall>x\<in>set b. isspace x" and "\<not> isspace c"
  shows "strip (a @ c # b) = [c]"
proof -
  have "dropWhile isspace (a @ c # b) = c # b"
    using assms(1,3) by (simp add: dropWhile_append3)
  moreover have "dropWhile isspace (rev b @ [c]) = [c]"
    using assms(2,3) by (simp add: dropWhile_append3)
  ultimately show ?thesis by (simp add: strip_def)
qed

lemma search_lazy_wildcard:
  assumes ws: "\<forall>x\<in>set ws. isspace x" and c: "\<not> isspace c"
  shows "search_from n [[Star True Space, Plus False NonSpace, Star True Space]] (ws @ c # rest)
         = Some (ws @ c # takeWhile isspace rest)"
proof -
  let ?s = "ws @ c # rest"
  let ?x = "dropWhile isspace rest"
  have m: "match_here n [Star True Space, Plus False NonSpace, Star True Space] ?s = Some ?x"
    using ws c by (intro star_space_prefix lazy_word)
  have s: "?s = (ws @ c # takeWhile isspace rest) @ ?x" by simp
  have t: "take (length ?s - length ?x) ?s = ws @ c # takeWhile isspace rest"
    by (subst (2) s, subst s, simp del: append_assoc takeWhile_dropWhile_id)
  obtain d ds where d: "?s = d # ds" by (cases ?s) auto
  show ?thesis
    using m t unfolding d by simp
qed

text \<open>
  C9 (span equal to the placeholder). For a marker that is not the empty string, the
  tokenizer-free function called with the marker itself as span returns the last
  character of \<open>text\<close> that is not whitespace, as a string of length one, when the
  text has such a character, and the span unchanged when it has none.
\<close>

theorem span_is_placeholder:
  assumes "unk \<noteq> []"
  shows "fix_unk_from_text_without_tokenizer unk text unk
         = Inr (if \<exists>c\<in>set text. \<not> isspace c
                then [last (filter (\<lambda>c. \<not> isspace c) text)] else unk)"
proof (cases "\<exists>c\<in>set text. \<not> isspace c")
  case False
  then have "\<forall>x\<in>set (rev text). isspace x" by simp
  then have "search_from (length (rev text))
      [[Star True Space, Plus False NonSpace, Star True Space]] (rev text) = None"
    by (rule search_spaces_only)
  then have "re_search wildcard_lazy (rev text) = Inr None"
    by (simp add: re_search_def parse_wildcard_lazy)
  moreover have "\<exists>m. re_search wildcard text = Inr m"
    by (simp add: re_search_def parse_wildcard)
  ultimately show ?thesis
    using False assms
    by (auto simp: fix_unk_from_text_without_tokenizer_def contains_self patterns_of_marker)
next
  case True
  let ?ws = "takeWhile isspace (rev text)"
  let ?r = "dropWhile isspace (rev text)"
  from True have "?r \<noteq> []" by (auto simp: dropWhile_eq_Nil_conv)
  then obtain c rest where r: "?r = c # rest" by (cases ?r) auto
  have c: "\<not> isspace c" using r by (metis hd_dropWhile list.sel(1) list.simps(3))
  have ws: "\<forall>x\<in>set ?ws. isspace x" by (auto dest: set_takeWhileD)
  have rt: "rev text = ?ws @ c # rest" using r by (metis takeWhile_dropWhile_id)
  have "search_from (length (rev text))
      [[Star True Space, Plus False NonSpace, Star True Space]] (?ws @ c # rest)
      = Some (?ws @ c # takeWhile isspace rest)"
    using ws c by (rule search_lazy_wildcard)
  then have rs: "re_search wildcard_lazy (rev text) = Inr (Some (?ws @ c # takeWhile isspace rest))"
    using rt by (simp add: re_search_def parse_wildcard_lazy)
  have st: "strip (rev (?ws @ c # takeWhile isspace rest)) = [c]"
  proof -
    have "rev (?ws @ c # takeWhile isspace rest) = rev (takeWhile isspace rest) @ c # rev ?ws"
      by simp
    moreover have "strip (rev (takeWhile isspace rest) @ c # rev ?ws) = [c]"
      using ws c by (intro strip_around) (auto dest: set_takeWhileD)
    ultimately show ?thesis by simp
  qed
  have "filter (\<lambda>c. \<not> isspace c) (rev text) = c # filter (\<lambda>c. \<not> isspace c) rest"
    using ws c by (subst rt) (simp add: filter_empty_conv)
  then have "rev (filter (\<lambda>c. \<not> isspace c) text) = c # filter (\<lambda>c. \<not> isspace c) rest"
    by (simp add: rev_filter)
  then have lst: "last (filter (\<lambda>c. \<not> isspace c) text) = c"
    by (metis hd_rev list.sel(1) rev_rev_ident rev_is_Nil_conv list.simps(3) last_rev)
  have fw: "\<exists>m. re_search wildcard text = Inr m"
    by (simp add: re_search_def parse_wildcard)
  show ?thesis
    using True assms rs st lst fw
    by (auto simp: fix_unk_from_text_without_tokenizer_def contains_self patterns_of_marker)
qed

theorem span_is_placeholder_witness:
  "default_unk \<noteq> []
   \<and> fix_unk_from_text_without_tokenizer default_unk (ascii ''ab c '') default_unk = Inr (ascii ''c'')
   \<and> fix_unk_from_text_without_tokenizer default_unk (ascii ''  '') default_unk = Inr default_unk"
proof -
  have h: "default_unk \<noteq> []" by (simp add: default_unk_def)
  from h span_is_placeholder [OF h, of "ascii ''ab c ''"] span_is_placeholder [OF h, of "ascii ''  ''"]
  show ?thesis by (simp add: ascii_def isspace_def)
qed

section \<open>\<open>match_sublist\<close> with the empty target\<close>

lemma find_empty: "find s [] = 0"
  by (cases s) (simp_all add: find_def)

lemma decode_loop_offsets:
  assumes "decode_loop m l i dt om = Inr (dt2, om2)"
  shows "\<exists>toks dt' om'. map m l = map Some toks \<and> dt2 = dt @ dt' \<and> om2 = om @ om'
           \<and> dt' = concat (map strip_marker toks)
           \<and> length om' = length dt' \<and> sorted om'
           \<and> set om' = {j. i \<le> j \<and> j < i + length toks \<and> strip_marker (toks ! (j - i)) \<noteq> []}"
  using assms
proof (induction l arbitrary: i dt om)
  case Nil
  then show ?case by auto
next
  case (Cons tid rest)
  from Cons.prems obtain t where t: "m tid = Some t"
    and rec: "decode_loop m rest (Suc i) (dt @ strip_marker t)
                (om @ replicate (length (strip_marker t)) i) = Inr (dt2, om2)"
    by (auto simp: Let_def split: option.splits)
  from Cons.IH [OF rec] obtain toks dt' om' where
    toks: "map m rest = map Some toks"
    and dt2: "dt2 = (dt @ strip_marker t) @ dt'"
    and om2: "om2 = (om @ replicate (length (strip_marker t)) i) @ om'"
    and dt': "dt' = concat (map strip_marker toks)"
    and len: "length om' = length dt'"
    and srt: "sorted om'"
    and st: "set om' = {j. Suc i \<le> j \<and> j < Suc i + length toks
                \<and> strip_marker (toks ! (j - Suc i)) \<noteq> []}"
    by blast
  let ?d = "replicate (length (strip_marker t)) i @ om'"
  have 1: "map m (tid # rest) = map Some (t # toks)" using t toks by simp
  have 2: "dt2 = dt @ (strip_marker t @ dt')" using dt2 by simp
  have 3: "om2 = om @ ?d" using om2 by simp
  have 4: "strip_marker t @ dt' = concat (map strip_marker (t # toks))" using dt' by simp
  have 5: "length ?d = length (strip_marker t @ dt')" using len by simp
  have 6: "sorted ?d" using srt st by (auto simp: sorted_append)
  have 7: "set ?d = {j. i \<le> j \<and> j < i + length (t # toks)
                \<and> strip_marker ((t # toks) ! (j - i)) \<noteq> []}" (is "_ = ?R")
  proof (rule set_eqI)
    fix j
    show "j \<in> set ?d \<longleftrightarrow> j \<in> ?R"
    proof (cases "j = i")
      case True
      then show ?thesis using st by auto
    next
      case False
      have "j \<in> set ?d \<longleftrightarrow> j \<in> set om'" using False by auto
      also have "\<dots> \<longleftrightarrow> Suc i \<le> j \<and> j < Suc i + length toks
                \<and> strip_marker (toks ! (j - Suc i)) \<noteq> []" using st by simp
      also have "\<dots> \<longleftrightarrow> j \<in> ?R"
      proof (cases "Suc i \<le> j")
        case True
        then have "j - i = Suc (j - Suc i)" by simp
        then show ?thesis using True by auto
      next
        case F: False
        then show ?thesis using False by auto
      qed
      finally show ?thesis .
    qed
  qed
  from 1 2 3 4 5 6 7 show ?case by blast
qed

lemma py_index_first: "xs \<noteq> [] \<Longrightarrow> py_index xs 0 = Inr (hd xs)"
  by (cases xs) (simp_all add: py_index_def)

lemma py_index_last: "xs \<noteq> [] \<Longrightarrow> py_index xs (- 1) = Inr (last xs)"
proof -
  assume ne: "xs \<noteq> []"
  then have pos: "0 < length xs" by simp
  then have "nat (- 1 + int (length xs)) = length xs - 1" by linarith
  moreover from pos have "- int (length xs) \<le> - 1" by linarith
  ultimately show ?thesis using ne by (simp add: py_index_def last_conv_nth)
qed

lemma sorted_hd_le: "sorted (xs::nat list) \<Longrightarrow> x \<in> set xs \<Longrightarrow> hd xs \<le> x"
  by (cases xs) auto

lemma sorted_le_last: "sorted (xs::nat list) \<Longrightarrow> x \<in> set xs \<Longrightarrow> x \<le> last xs"
proof -
  assume srt: "sorted xs" and x: "x \<in> set xs"
  then obtain i where i: "i < length xs" "xs ! i = x" by (auto simp: in_set_conv_nth)
  then have ne: "xs \<noteq> []" by auto
  have "xs ! i \<le> xs ! (length xs - 1)"
    using srt i(1) by (intro sorted_nth_mono) auto
  then show ?thesis using i ne by (simp add: last_conv_nth)
qed

text \<open>
  C10 (empty search target). When decoding the token list succeeds and the decoded text
  is not empty, \<open>match_sublist\<close> called with the empty string returns the pair
  \<open>(a, b)\<close> where \<open>a\<close> is the index of the first token and \<open>b\<close> the index of the
  last token whose string, with the marker U+2581 removed, is not empty: the tokens that
  produce the first and the last decoded character. The empty string is found at
  position 0, and position \<open>0 + 0 - 1 = -1\<close> reads the last entry of the offset list.
\<close>

theorem match_sublist_empty_target:
  assumes "decode_loop id2token the_list 0 [] [] = Inr (decoded_text, decoded_offset_mapping)"
    and "decoded_text \<noteq> []"
  shows "\<exists>toks a b. map id2token the_list = map Some toks
           \<and> match_sublist the_list [] id2token = Inr (Some (a, b))
           \<and> a \<le> b \<and> b < length toks
           \<and> strip_marker (toks ! a) \<noteq> [] \<and> (\<forall>j<a. strip_marker (toks ! j) = [])
           \<and> strip_marker (toks ! b) \<noteq> []
           \<and> (\<forall>j. b < j \<and> j < length toks \<longrightarrow> strip_marker (toks ! j) = [])"
proof -
  from decode_loop_offsets [OF assms(1)] obtain toks where
    toks: "map id2token the_list = map Some toks"
    and len: "length decoded_offset_mapping = length decoded_text"
    and srt: "sorted decoded_offset_mapping"
    and st: "set decoded_offset_mapping = {j. j < length toks \<and> strip_marker (toks ! j) \<noteq> []}"
    by auto
  let ?d = "decoded_offset_mapping"
  from len assms(2) have ne: "?d \<noteq> []" by auto
  have m: "match_sublist the_list [] id2token = Inr (Some (hd ?d, last ?d))"
    using assms(1) ne by (simp add: match_sublist_def find_empty py_index_first py_index_last)
  have hd_in: "hd ?d \<in> set ?d" and last_in: "last ?d \<in> set ?d" using ne by simp_all
  have hd_le: "hd ?d \<le> x" if "x \<in> set ?d" for x
    using srt that by (rule sorted_hd_le)
  have le_last: "x \<le> last ?d" if "x \<in> set ?d" for x
    using srt that by (rule sorted_le_last)
  have a1: "hd ?d \<le> last ?d" using hd_le last_in by blast
  have a2: "last ?d < length toks" "strip_marker (toks ! last ?d) \<noteq> []"
    using last_in st by auto
  have a3: "strip_marker (toks ! hd ?d) \<noteq> []" using hd_in st by auto
  have a4: "\<forall>j<hd ?d. strip_marker (toks ! j) = []"
  proof (intro allI impI, rule ccontr)
    fix j assume j: "j < hd ?d" and n: "strip_marker (toks ! j) \<noteq> []"
    from j hd_in st have "j < length toks" by auto
    with n st have "j \<in> set ?d" by auto
    from hd_le [OF this] j show False by simp
  qed
  have a5: "\<forall>j. last ?d < j \<and> j < length toks \<longrightarrow> strip_marker (toks ! j) = []"
  proof (intro allI impI, rule ccontr)
    fix j assume j: "last ?d < j \<and> j < length toks" and n: "strip_marker (toks ! j) \<noteq> []"
    with st have "j \<in> set ?d" by auto
    from le_last [OF this] j show False by simp
  qed
  from toks m a1 a2 a3 a4 a5 show ?thesis by blast
qed

theorem match_sublist_empty_target_witness:
  "decode_loop (id2token_of [([9601], 7), ([9601, 97], 8), ([98, 99], 9)]) [7, 8, 9, 7] 0 [] []
     = Inr ([97, 98, 99], [1, 2, 2])
   \<and> [97, 98, 99] \<noteq> ([]::nat list)
   \<and> match_sublist [7, 8, 9, 7] [] (id2token_of [([9601], 7), ([9601, 97], 8), ([98, 99], 9)])
       = Inr (Some (1, 2))
   \<and> (\<exists>toks a b. map (id2token_of [([9601], 7), ([9601, 97], 8), ([98, 99], 9)]) [7, 8, 9, 7]
             = map Some toks
           \<and> match_sublist [7, 8, 9, 7] [] (id2token_of [([9601], 7), ([9601, 97], 8), ([98, 99], 9)])
             = Inr (Some (a, b))
           \<and> a \<le> b \<and> b < length toks
           \<and> strip_marker (toks ! a) \<noteq> [] \<and> (\<forall>j<a. strip_marker (toks ! j) = [])
           \<and> strip_marker (toks ! b) \<noteq> []
           \<and> (\<forall>j. b < j \<and> j < length toks \<longrightarrow> strip_marker (toks ! j) = []))"
proof -
  have h: "decode_loop (id2token_of [([9601], 7), ([9601, 97], 8), ([98, 99], 9)]) [7, 8, 9, 7]
      0 [] [] = Inr ([97, 98, 99], [1, 2, 2])"
    by (simp add: id2token_of_def strip_marker_def)
  have n: "[97, 98, 99] \<noteq> ([]::nat list)" by simp
  have m: "match_sublist [7, 8, 9, 7] [] (id2token_of [([9601], 7), ([9601, 97], 8), ([98, 99], 9)])
      = Inr (Some (1, 2))"
    unfolding match_sublist_def h by (simp add: find_def py_index_def)
  from match_sublist_empty_target [OF h n] h n m show ?thesis by blast
qed

section \<open>The matcher against the strings a pattern denotes\<close>

lemma lang_Star_skip: "lang r m \<Longrightarrow> lang (Star g a # r) m"
proof -
  assume "lang r m"
  then have "m = [] @ m \<and> list_all (atom_ok a) [] \<and> lang r m" by simp
  then show ?thesis unfolding lang.simps by blast
qed

lemma lang_Star_take:
  assumes "atom_ok a c" and "lang (Star g a # r) m"
  shows "lang (Star g a # r) (c # m)"
proof -
  from assms(2) obtain p m' where "m = p @ m'" "list_all (atom_ok a) p" "lang r m'" by auto
  with assms(1) have "c # m = (c # p) @ m' \<and> list_all (atom_ok a) (c # p) \<and> lang r m'"
    by simp
  then show ?thesis unfolding lang.simps by blast
qed

lemma match_here_sound:
  "match_here n r s = Some x \<Longrightarrow> \<exists>m. s = m @ x \<and> lang r m"
proof (induction n r s arbitrary: x rule: match_here.induct)
  case (1 n s)
  then show ?case by simp
next
  case (2 n r s)
  then show ?case by (simp split: if_splits)
next
  case (3 n r s)
  then show ?case by (simp split: if_splits)
next
  case (4 n a r)
  then show ?case by simp
next
  case (5 n a r c cs)
  then have ok: "atom_ok a c" and "match_here n r cs = Some x" by (simp_all split: if_splits)
  with 5 obtain m where "cs = m @ x" "lang r m" by blast
  with ok have "c # cs = (c # m) @ x \<and> lang (One a # r) (c # m)" by simp
  then show ?case by blast
next
  case (6 n g a r)
  then show ?case by simp
next
  case (7 n g a r c cs)
  then have ok: "atom_ok a c" and "match_here n (Star g a # r) cs = Some x"
    by (simp_all split: if_splits)
  with 7 obtain m where "cs = m @ x" "lang (Star g a # r) m" by blast
  then obtain p m' where "m = p @ m'" "list_all (atom_ok a) p" "lang r m'" and cs: "cs = m @ x"
    by auto
  with ok have "c # cs = ((c # p) @ m') @ x \<and> c # p \<noteq> [] \<and> list_all (atom_ok a) (c # p) \<and> lang r m'"
    by simp
  then have "c # cs = ((c # p) @ m') @ x \<and> lang (Plus g a # r) ((c # p) @ m')"
    unfolding lang.simps by blast
  then show ?case by blast
next
  case (8 n g a r)
  then have "match_here n r [] = Some x" by simp
  with 8 obtain m where "[] = m @ x" "lang r m" by blast
  then have "[] = m @ x \<and> lang (Star g a # r) m"
    by (simp only: lang_Star_skip)
  then show ?case by blast
next
  case (9 n g a r c cs)
  show ?case
  proof (cases g)
    case True
    show ?thesis
    proof (cases "atom_ok a c")
      case ok: True
      show ?thesis
      proof (cases "match_here n (Star g a # r) cs")
        case None
        with True ok "9.prems" have e: "match_here n r (c # cs) = Some x" by simp
        from "9.IH" True ok None e obtain m where "c # cs = m @ x" "lang r m" by blast
        then show ?thesis using lang_Star_skip by blast
      next
        case (Some y)
        with True ok "9.prems" have e: "match_here n (Star g a # r) cs = Some x" by simp
        from "9.IH" True ok e obtain m where "cs = m @ x" "lang (Star g a # r) m" by blast
        then have "c # cs = (c # m) @ x \<and> lang (Star g a # r) (c # m)"
          using lang_Star_take [OF ok] by (simp del: lang.simps)
        then show ?thesis by blast
      qed
    next
      case False
      with True "9.prems" have e: "match_here n r (c # cs) = Some x" by simp
      from "9.IH" True False e obtain m where "c # cs = m @ x" "lang r m" by blast
      then show ?thesis using lang_Star_skip by blast
    qed
  next
    case False
    show ?thesis
    proof (cases "match_here n r (c # cs)")
      case None
      with False "9.prems" have ok: "atom_ok a c"
        and e: "match_here n (Star g a # r) cs = Some x" by (simp_all split: if_splits)
      from "9.IH" False None ok e obtain m where "cs = m @ x" "lang (Star g a # r) m" by blast
      then have "c # cs = (c # m) @ x \<and> lang (Star g a # r) (c # m)"
        using lang_Star_take [OF ok] by (simp del: lang.simps)
      then show ?thesis by blast
    next
      case (Some y)
      with False "9.prems" have e: "match_here n r (c # cs) = Some x" by simp
      from "9.IH" False e obtain m where "c # cs = m @ x" "lang r m" by blast
      then show ?thesis using lang_Star_skip by blast
    qed
  qed
next
  case (10 n g a r)
  then have "match_here n r [] = Some x" by simp
  with 10 obtain m where "[] = m @ x" "lang r m" by blast
  then show ?case by auto
next
  case (11 n g a r c cs)
  show ?case
  proof (cases g)
    case True
    show ?thesis
    proof (cases "atom_ok a c")
      case ok: True
      show ?thesis
      proof (cases "match_here n r cs")
        case None
        with True ok "11.prems" have e: "match_here n r (c # cs) = Some x" by simp
        from "11.IH" True ok None e obtain m where "c # cs = m @ x" "lang r m" by blast
        then have "c # cs = m @ x \<and> lang (Opt g a # r) m" by simp
        then show ?thesis by blast
      next
        case (Some y)
        with True ok "11.prems" have e: "match_here n r cs = Some x" by simp
        from "11.IH" True ok e obtain m where "cs = m @ x" "lang r m" by blast
        then have "c # cs = (c # m) @ x \<and> lang (Opt g a # r) (c # m)"
          using ok by simp
        then show ?thesis by blast
      qed
    next
      case False
      with True "11.prems" have e: "match_here n r (c # cs) = Some x" by simp
      from "11.IH" True False e obtain m where "c # cs = m @ x" "lang r m" by blast
      then have "c # cs = m @ x \<and> lang (Opt g a # r) m" by simp
      then show ?thesis by blast
    qed
  next
    case False
    show ?thesis
    proof (cases "match_here n r (c # cs)")
      case None
      with False "11.prems" have ok: "atom_ok a c"
        and e: "match_here n r cs = Some x" by (simp_all split: if_splits)
      from "11.IH" False None ok e obtain m where "cs = m @ x" "lang r m" by blast
      then have "c # cs = (c # m) @ x \<and> lang (Opt g a # r) (c # m)"
        using ok by simp
      then show ?thesis by blast
    next
      case (Some y)
      with False "11.prems" have e: "match_here n r (c # cs) = Some x" by simp
      from "11.IH" False e obtain m where "c # cs = m @ x" "lang r m" by blast
      then have "c # cs = m @ x \<and> lang (Opt g a # r) m" by simp
      then show ?thesis by blast
    qed
  qed
qed

lemma search_from_lang: "search_from n [items] s = Some g \<Longrightarrow> lang items g"
proof (induction s)
  case Nil
  then obtain x where "match_here n items [] = Some x" by (auto split: option.splits)
  from match_here_sound [OF this] Nil show ?case by (auto split: option.splits)
next
  case (Cons c cs)
  show ?case
  proof (cases "match_here n items (c # cs)")
    case None
    with Cons show ?thesis by simp
  next
    case (Some x)
    from match_here_sound [OF Some] obtain m where m: "c # cs = m @ x" "lang items m" by blast
    from Some Cons.prems have "g = take (length (c # cs) - length x) (c # cs)" by simp
    also have "\<dots> = m" by (subst (2) m(1), subst m(1)) simp
    finally show ?thesis using m(2) by simp
  qed
qed

subsection \<open>Parsing a pattern joined from escaped fragments\<close>

lemma parse_escaped_char:
  assumes "c \<notin> set unescaped"
  shows "parse_re ((if c \<in> set sp then [92, c] else [c]) @ rest) cur done
         = parse_re rest (One (Lit c) # cur) done"
  using assms by (auto simp: sp_def unescaped_def is_ascii_alnum_def is_digit_def)

lemma parse_clean_wildcard:
  assumes "\<forall>c\<in>set f. c \<notin> set unescaped"
  shows "parse_re (clean_wildcard f @ rest) cur done = parse_re rest (rev (lits f) @ cur) done"
  using assms
proof (induction f arbitrary: cur)
  case Nil
  then show ?case by (simp add: clean_wildcard_def lits_def)
next
  case (Cons c f)
  have c: "c \<notin> set unescaped" using Cons.prems by simp
  have "parse_re (clean_wildcard (c # f) @ rest) cur done
        = parse_re ((if c \<in> set sp then [92, c] else [c]) @ (clean_wildcard f @ rest)) cur done"
    by (simp add: clean_wildcard_def)
  also have "\<dots> = parse_re (clean_wildcard f @ rest) (One (Lit c) # cur) done"
    by (rule parse_escaped_char [OF c])
  also have "\<dots> = parse_re rest (rev (lits f) @ One (Lit c) # cur) done"
    using Cons.prems by (intro Cons.IH) simp
  finally show ?case by (simp add: lits_def)
qed

lemma parse_wildcard_then:
  assumes "ok_head rest"
  shows "parse_re (wildcard @ rest) (cur) done = parse_re rest (rev (connector True) @ cur) done"
    and "parse_re (wildcard_lazy @ rest) (cur) done = parse_re rest (rev (connector False) @ cur) done"
  using assms
  by (cases rest; simp add: ok_head_def wildcard_def wildcard_lazy_def connector_def quantify_def
      is_ascii_alnum_def is_digit_def)+

lemma ok_head_clean: "ok_head (clean_wildcard f @ 92 # rest)"
  by (cases f) (auto simp: ok_head_def clean_wildcard_def sp_def)

lemma ok_head_clean_only: "ok_head (clean_wildcard f)"
  by (cases f) (auto simp: ok_head_def clean_wildcard_def sp_def)

lemma ok_head_join:
  assumes "w = wildcard \<or> w = wildcard_lazy"
  shows "ok_head (join w (map clean_wildcard fs))"
proof (cases fs)
  case Nil
  then show ?thesis by (simp add: ok_head_def)
next
  case (Cons f fs')
  show ?thesis
  proof (cases fs')
    case Nil
    with Cons show ?thesis by (simp add: ok_head_clean_only)
  next
    case (Cons f' fs'')
    from assms obtain w' where "w = 92 # w'" by (auto simp: wildcard_def wildcard_lazy_def)
    with Cons \<open>fs = f # fs'\<close> show ?thesis by (simp add: ok_head_clean)
  qed
qed

lemma parse_joined:
  assumes "\<forall>f\<in>set fs. \<forall>c\<in>set f. c \<notin> set unescaped" and "fs \<noteq> []"
    and "(w, g) = (wildcard, True) \<or> (w, g) = (wildcard_lazy, False)"
  shows "parse_re (join w (map clean_wildcard fs)) cur done
         = Inr (rev (rev (rev (pattern_items g fs) @ cur) # done))"
  using assms(1,2)
proof (induction fs arbitrary: cur)
  case Nil
  then show ?case by simp
next
  case (Cons f fs)
  have plain: "\<forall>c\<in>set f. c \<notin> set unescaped" using Cons.prems(1) by simp
  show ?case
  proof (cases fs)
    case Nil
    have "parse_re (clean_wildcard f @ []) cur done = parse_re [] (rev (lits f) @ cur) done"
      using plain by (rule parse_clean_wildcard)
    with Nil show ?thesis by simp
  next
    case (Cons f' fs')
    let ?rest = "join w (map clean_wildcard fs)"
    have w: "w = wildcard \<or> w = wildcard_lazy" using assms(3) by auto
    have "parse_re (join w (map clean_wildcard (f # fs))) cur done
          = parse_re (clean_wildcard f @ (w @ ?rest)) cur done" using Cons by simp
    also have "\<dots> = parse_re (w @ ?rest) (rev (lits f) @ cur) done"
      using plain by (rule parse_clean_wildcard)
    also have "\<dots> = parse_re ?rest (rev (connector g) @ rev (lits f) @ cur) done"
    proof -
      have ok: "ok_head ?rest" by (rule ok_head_join [OF w])
      from assms(3) show ?thesis
      proof
        assume "(w, g) = (wildcard, True)"
        then show ?thesis using parse_wildcard_then(1) [OF ok] by simp
      next
        assume "(w, g) = (wildcard_lazy, False)"
        then show ?thesis using parse_wildcard_then(2) [OF ok] by simp
      qed
    qed
    also have "\<dots> = Inr (rev (rev (rev (pattern_items g fs)
                       @ rev (connector g) @ rev (lits f) @ cur) # done))"
      using Cons.prems(1) Cons by (intro Cons.IH) simp_all
    finally show ?thesis using Cons by simp
  qed
qed

subsection \<open>Gaps\<close>

lemma is_gapI:
  assumes "list_all isspace a" and "w \<noteq> []" and "list_all (\<lambda>c. \<not> isspace c) w"
    and "list_all isspace b"
  shows "is_gap (a @ w @ b)"
proof -
  from assms(2) obtain c w' where w: "w = c # w'" by (cases w) auto
  with assms(3) have c: "\<not> isspace c" by simp
  have 1: "dropWhile isspace (a @ w @ b) = w @ b"
    using assms(1) c w by (simp add: dropWhile_append2 list_all_iff)
  have 2: "dropWhile (\<lambda>c. \<not> isspace c) (w @ b) = dropWhile (\<lambda>c. \<not> isspace c) b"
    using assms(3) by (simp add: dropWhile_append2 list_all_iff)
  have 3: "list_all isspace (dropWhile (\<lambda>c. \<not> isspace c) b)"
    using assms(4) by (auto simp: list_all_iff dest: set_dropWhileD)
  show ?thesis unfolding is_gap_def 1 2 using 3 w by simp
qed

lemma is_gapD:
  assumes "is_gap g"
  shows "\<exists>a w b. g = a @ w @ b \<and> list_all isspace a \<and> w \<noteq> []
           \<and> list_all (\<lambda>c. \<not> isspace c) w \<and> list_all isspace b"
proof -
  let ?a = "takeWhile isspace g"
  let ?r = "dropWhile isspace g"
  let ?w = "takeWhile (\<lambda>c. \<not> isspace c) ?r"
  let ?b = "dropWhile (\<lambda>c. \<not> isspace c) ?r"
  from assms have r: "?r \<noteq> []" and b: "list_all isspace ?b" by (simp_all add: is_gap_def)
  from r have "\<not> isspace (hd ?r)" by (rule hd_dropWhile)
  with r have w: "?w \<noteq> []" by (cases ?r) auto
  have "g = ?a @ ?w @ ?b" by simp
  moreover have "list_all isspace ?a" by (auto simp: list_all_iff dest: set_takeWhileD)
  moreover have "list_all (\<lambda>c. \<not> isspace c) ?w" by (auto simp: list_all_iff dest: set_takeWhileD)
  ultimately show ?thesis using w b by blast
qed

lemma is_gap_rev: "is_gap g \<Longrightarrow> is_gap (rev g)"
proof -
  assume "is_gap g"
  from is_gapD [OF this] obtain a w b where g: "g = a @ w @ b" and a: "list_all isspace a"
    and w: "w \<noteq> []" "list_all (\<lambda>c. \<not> isspace c) w" and b: "list_all isspace b" by blast
  have "rev g = rev b @ rev w @ rev a" using g by simp
  moreover have "is_gap (rev b @ rev w @ rev a)"
    using a w b by (intro is_gapI) (simp_all add: list_all_iff)
  ultimately show ?thesis by simp
qed

lemma is_gap_dropWhile: "is_gap g \<Longrightarrow> is_gap (dropWhile isspace g)"
  by (simp add: is_gap_def dropWhile_idem)

lemma is_gap_has_nonspace: "is_gap g \<Longrightarrow> \<exists>x\<in>set g. \<not> isspace x"
  by (auto simp: is_gap_def dropWhile_eq_Nil_conv)

subsection \<open>The strings matched by a joined pattern\<close>

lemma lang_lits: "lang (lits f @ r) m \<longleftrightarrow> (\<exists>m'. m = f @ m' \<and> lang r m')"
  by (induction f arbitrary: m) (auto simp: lits_def)

lemma lang_connector:
  assumes "lang (connector g @ r) m"
  shows "\<exists>gap m'. m = gap @ m' \<and> is_gap gap \<and> lang r m'"
proof -
  from assms obtain p1 p2 p3 m' where m: "m = p1 @ p2 @ p3 @ m'"
    and p: "list_all isspace p1" "p2 \<noteq> []" "list_all (\<lambda>c. \<not> isspace c) p2" "list_all isspace p3"
    and r: "lang r m'"
    by (auto simp: connector_def list_all_iff)
  from p have "is_gap (p1 @ p2 @ p3)" by (rule is_gapI)
  with m r have "m = (p1 @ p2 @ p3) @ m' \<and> is_gap (p1 @ p2 @ p3) \<and> lang r m'" by simp
  then show ?thesis by blast
qed

lemma lang_pattern_items:
  assumes "lang (pattern_items g fs) m" and "fs \<noteq> []"
  shows "\<exists>gaps. length gaps + 1 = length fs \<and> list_all is_gap gaps \<and> m = weave fs gaps"
  using assms
proof (induction fs arbitrary: m)
  case Nil
  then show ?case by simp
next
  case (Cons f fs)
  show ?case
  proof (cases fs)
    case Nil
    with Cons.prems have "lang (lits f @ []) m" by simp
    then have "m = f" unfolding lang_lits by simp
    with Nil have "length [] + 1 = length (f # fs) \<and> list_all is_gap [] \<and> m = weave (f # fs) []"
      by simp
    then show ?thesis by blast
  next
    case (Cons f' fs')
    with Cons.prems have "lang (lits f @ connector g @ pattern_items g fs) m" by simp
    then obtain m1 where m1: "m = f @ m1" "lang (connector g @ pattern_items g fs) m1"
      unfolding lang_lits by blast
    from lang_connector [OF m1(2)] obtain gap m2 where
      m2: "m1 = gap @ m2" "is_gap gap" "lang (pattern_items g fs) m2" by blast
    from Cons.IH [OF m2(3)] Cons obtain gaps where
      gaps: "length gaps + 1 = length fs" "list_all is_gap gaps" "m2 = weave fs gaps" by auto
    from Cons m1 m2 gaps have "length (gap # gaps) + 1 = length (f # fs)
        \<and> list_all is_gap (gap # gaps) \<and> m = weave (f # fs) (gap # gaps)" by simp
    then show ?thesis by blast
  qed
qed

subsection \<open>Weaving, reversal and trimming\<close>

lemma weave_snoc:
  "length gs + 1 = length fs \<Longrightarrow> weave (fs @ [f]) (gs @ [g]) = weave fs gs @ g @ f"
proof (induction fs gs rule: weave.induct)
  case (1 gs)
  then show ?case by simp
next
  case (2 f' fs)
  then show ?case by simp
next
  case (3 f' fs g' gs)
  then show ?case by simp
qed

lemma rev_weave:
  "length gs + 1 = length fs \<Longrightarrow>
   rev (weave fs gs) = weave (rev (map rev fs)) (rev (map rev gs))"
proof (induction fs gs rule: weave.induct)
  case (1 gs)
  then show ?case by simp
next
  case (2 f fs)
  then show ?case by simp
next
  case (3 f fs g gs)
  then have len: "length gs + 1 = length fs" by simp
  then have "length (rev (map rev gs)) + 1 = length (rev (map rev fs))" by simp
  from weave_snoc [OF this] 3(1) [OF len] show ?case by simp
qed

lemma trimmed_strip: "trimmed (strip s)"
proof (cases "strip s = []")
  case True
  then show ?thesis by (simp add: trimmed_def)
next
  case False
  let ?d = "dropWhile isspace (rev (dropWhile isspace s))"
  from False have d: "?d \<noteq> []" by (simp add: strip_def)
  then have l: "\<not> isspace (hd ?d)" by (rule hd_dropWhile)
  have "last (strip s) = hd ?d" using d by (simp add: strip_def last_rev)
  moreover have "\<not> isspace (hd (strip s))"
  proof -
    have "hd (strip s) = last ?d" using d by (simp add: strip_def hd_rev)
    moreover have "last ?d \<in> set ?d" using d by simp
    then have "last ?d \<in> set (rev (dropWhile isspace s))" by (rule set_dropWhileD)
    then have ne: "dropWhile isspace s \<noteq> []"
    proof -
      assume m: "last ?d \<in> set (rev (dropWhile isspace s))"
      show ?thesis
      proof
        assume "dropWhile isspace s = []"
        with m show False by simp
      qed
    qed
    then have "\<not> isspace (hd (dropWhile isspace s))" by (rule hd_dropWhile)
    moreover have "last ?d = hd (dropWhile isspace s)"
    proof -
      have "?d = drop (length (takeWhile isspace (rev (dropWhile isspace s)))) (rev (dropWhile isspace s))"
        by (simp add: dropWhile_eq_drop)
      then have "last ?d = last (rev (dropWhile isspace s))" using d by (metis last_drop drop_eq_Nil not_le)
      then show ?thesis using ne by (simp add: last_rev)
    qed
    ultimately show ?thesis by simp
  qed
  ultimately show ?thesis using l by (simp add: trimmed_def)
qed

lemma trimmed_rev: "trimmed f \<Longrightarrow> trimmed (rev f)"
  by (auto simp: trimmed_def hd_rev last_rev)

lemma dropWhile_weave:
  assumes "trimmed f" and "length gs + 1 = length (f # fs)" and "list_all is_gap gs"
  shows "\<exists>gs'. length gs' = length gs \<and> list_all is_gap gs'
           \<and> dropWhile isspace (weave (f # fs) gs) = weave (f # fs) gs'"
proof (cases "f = []")
  case False
  with assms(1) have "\<not> isspace (hd f)" by (simp add: trimmed_def)
  with False have dw: "dropWhile isspace (f @ rest) = f @ rest" for rest by (cases f) auto
  have "dropWhile isspace (weave (f # fs) gs) = weave (f # fs) gs"
  proof (cases gs)
    case Nil
    then show ?thesis using dw [of "[]"] by simp
  next
    case (Cons g gs')
    then show ?thesis using dw by simp
  qed
  with assms(3) show ?thesis by blast
next
  case True
  show ?thesis
  proof (cases gs)
    case Nil
    with True have "dropWhile isspace (weave (f # fs) gs) = weave (f # fs) gs" by simp
    with assms(3) show ?thesis by blast
  next
    case (Cons g gs')
    with assms(3) have g: "is_gap g" and r: "list_all is_gap gs'" by simp_all
    from is_gap_has_nonspace [OF g] obtain x where "x \<in> set g" "\<not> isspace x" by blast
    then have "dropWhile isspace (g @ weave fs gs') = dropWhile isspace g @ weave fs gs'"
      by (rule dropWhile_append1)
    with True Cons have "dropWhile isspace (weave (f # fs) gs)
        = weave (f # fs) (dropWhile isspace g # gs')" by simp
    moreover have "list_all is_gap (dropWhile isspace g # gs')"
      using r is_gap_dropWhile [OF g] by simp
    moreover have "length (dropWhile isspace g # gs') = length gs" using Cons by simp
    ultimately show ?thesis by blast
  qed
qed

lemma strip_weave:
  assumes "list_all trimmed fs" and "fs \<noteq> []" and "length gs + 1 = length fs"
    and "list_all is_gap gs"
  shows "\<exists>gs'. length gs' = length gs \<and> list_all is_gap gs' \<and> strip (weave fs gs) = weave fs gs'"
proof -
  from assms(2) obtain f fs' where fs: "fs = f # fs'" by (cases fs) auto
  with assms(1) have f: "trimmed f" by simp
  from dropWhile_weave [OF f assms(3) [unfolded fs] assms(4)] fs obtain g1 where
    g1: "length g1 = length gs" "list_all is_gap g1"
        "dropWhile isspace (weave fs gs) = weave fs g1" by auto
  let ?rf = "rev (map rev fs)" and ?rg = "rev (map rev g1)"
  have len1: "length g1 + 1 = length fs" using g1(1) assms(3) by simp
  have rv: "rev (weave fs g1) = weave ?rf ?rg" using len1 by (rule rev_weave)
  from assms(2) obtain l rf' where rf: "?rf = l # rf'" by (cases ?rf) auto
  have "list_all trimmed ?rf" using assms(1) by (auto simp: list_all_iff intro: trimmed_rev)
  with rf have l: "trimmed l" by simp
  have gr: "list_all is_gap ?rg" using g1(2) by (auto simp: list_all_iff intro: is_gap_rev)
  have len2: "length ?rg + 1 = length (l # rf')" using len1 rf [symmetric] by simp
  from dropWhile_weave [OF l len2 gr] rf obtain g2 where
    g2: "length g2 = length ?rg" "list_all is_gap g2"
        "dropWhile isspace (weave ?rf ?rg) = weave ?rf g2" by auto
  have len3: "length g2 + 1 = length ?rf" using g2(1) len1 by simp
  have "rev (weave ?rf g2) = weave (rev (map rev ?rf)) (rev (map rev g2))"
    using len3 by (rule rev_weave)
  also have "rev (map rev ?rf) = fs" by (simp add: rev_map [symmetric] comp_def)
  finally have bk: "rev (weave ?rf g2) = weave fs (rev (map rev g2))" .
  have "strip (weave fs gs) = weave fs (rev (map rev g2))"
    unfolding strip_def g1(3) rv g2(3) bk ..
  moreover have "list_all is_gap (rev (map rev g2))"
    using g2(2) by (auto simp: list_all_iff intro: is_gap_rev)
  moreover have "length (rev (map rev g2)) = length gs" using g2(1) g1(1) by simp
  ultimately show ?thesis by blast
qed

section \<open>Fragments in the recovered span\<close>

lemma set_strip: "set (strip s) \<subseteq> set s"
proof
  fix x assume "x \<in> set (strip s)"
  then have "x \<in> set (dropWhile isspace (rev (dropWhile isspace s)))" by (simp add: strip_def)
  then have "x \<in> set (rev (dropWhile isspace s))" by (rule set_dropWhileD)
  then have "x \<in> set (dropWhile isspace s)" by simp
  then show "x \<in> set s" by (rule set_dropWhileD)
qed

lemma split_on_not_Nil: "split_on sep s \<noteq> []"
  by (induction sep s rule: split_on.induct) (auto split: list.splits)

text \<open>
  When no fragment of the span holds a backslash, \<open>^\<close>, \<open>$\<close>, \<open>|\<close> or \<open>{\<close>,
  every fragment is matched as a literal: if the tokenizer-free function returns a string
  different from the span, that string is the trimmed fragments in their original order
  with one gap between each two neighbours, every gap being optional whitespace, at least
  one character that is not whitespace, and optional whitespace.
\<close>

lemma recovered_span_weaves_fragments:
  assumes plain: "\<forall>f\<in>set (split_on unk span). \<forall>c\<in>set f. c \<notin> set unescaped"
    and res: "fix_unk_from_text_without_tokenizer span text unk = Inr r"
    and ne: "r \<noteq> span"
  shows "\<exists>gaps. length gaps + 1 = length (split_on unk span) \<and> list_all is_gap gaps
           \<and> r = weave (map strip (split_on unk span)) gaps"
proof -
  let ?items = "split_on unk span"
  let ?frs = "rev (map (\<lambda>item. rev (strip item)) ?items)"
  let ?pat = "join wildcard_lazy (map clean_wildcard ?frs)"
  from res ne have unk: "unk \<noteq> []"
    by (auto simp: fix_unk_from_text_without_tokenizer_def match_pattern_def split_def
        split: if_splits sum.splits option.splits)
  have mr: "match_reversed_pattern span unk = Inr ?pat"
    using unk by (simp add: match_reversed_pattern_def split_def rev_map comp_def)
  from res ne obtain g where g: "re_search ?pat (rev text) = Inr (Some g)"
    and r: "r = strip (rev g)"
    by (auto simp: fix_unk_from_text_without_tokenizer_def mr
        split: if_splits sum.splits option.splits)
  have frs_ne: "?frs \<noteq> []" using split_on_not_Nil by simp
  have frs_plain: "\<forall>f\<in>set ?frs. \<forall>c\<in>set f. c \<notin> set unescaped"
    using plain set_strip by fastforce
  have "parse_re ?pat [] [] = Inr [pattern_items False ?frs]"
    using parse_joined [OF frs_plain frs_ne, of wildcard_lazy False "[]" "[]"] by simp
  with g have "search_from (length (rev text)) [pattern_items False ?frs] (rev text) = Some g"
    by (simp add: re_search_def)
  then have "lang (pattern_items False ?frs) g" by (rule search_from_lang)
  from lang_pattern_items [OF this frs_ne] obtain gaps where
    gaps: "length gaps + 1 = length ?frs" "list_all is_gap gaps" "g = weave ?frs gaps" by blast
  have "rev g = weave (rev (map rev ?frs)) (rev (map rev gaps))"
    unfolding gaps(3) using gaps(1) by (rule rev_weave)
  also have "rev (map rev ?frs) = map strip ?items"
    by (simp add: rev_map [symmetric] comp_def)
  finally have rg: "rev g = weave (map strip ?items) (rev (map rev gaps))" .
  have "\<exists>gs'. length gs' = length (rev (map rev gaps)) \<and> list_all is_gap gs'
          \<and> strip (weave (map strip ?items) (rev (map rev gaps))) = weave (map strip ?items) gs'"
  proof (rule strip_weave)
    show "list_all trimmed (map strip ?items)" by (simp add: list_all_iff trimmed_strip)
    show "map strip ?items \<noteq> []" using split_on_not_Nil by simp
    show "length (rev (map rev gaps)) + 1 = length (map strip ?items)" using gaps(1) by simp
    show "list_all is_gap (rev (map rev gaps))"
      using gaps(2) by (auto simp: list_all_iff intro: is_gap_rev)
  qed
  then obtain gs' where "length gs' = length gaps" "list_all is_gap gs'"
    "strip (rev g) = weave (map strip ?items) gs'" unfolding rg by auto
  with r gaps(1) have "length gs' + 1 = length ?items \<and> list_all is_gap gs'
      \<and> r = weave (map strip ?items) gs'" by simp
  then show ?thesis by blast
qed

lemma recovered_span_weaves_fragments_example:
  "fix_unk_from_text_without_tokenizer (ascii ''a <unk> c'') (ascii ''x a  bb c y'') default_unk
     = Inr (ascii ''a  bb c'')
   \<and> ascii ''a  bb c'' \<noteq> ascii ''a <unk> c''
   \<and> (\<exists>gaps. length gaps + 1 = length (split_on default_unk (ascii ''a <unk> c''))
         \<and> list_all is_gap gaps
         \<and> ascii ''a  bb c'' = weave (map strip (split_on default_unk (ascii ''a <unk> c''))) gaps)"
proof -
  have p: "\<forall>f\<in>set (split_on default_unk (ascii ''a <unk> c'')). \<forall>c\<in>set f. c \<notin> set unescaped"
    by (simp add: default_unk_def ascii_def unescaped_def)
  have e: "fix_unk_from_text_without_tokenizer (ascii ''a <unk> c'') (ascii ''x a  bb c y'') default_unk
       = Inr (ascii ''a  bb c'')"
    by (simp add: run_simps)
  have n: "ascii ''a  bb c'' \<noteq> ascii ''a <unk> c''" by (simp add: ascii_def)
  from recovered_span_weaves_fragments [OF p e n] e n show ?thesis by blast
qed

text \<open>
  C4 (fragment order). A fragment with a vertical bar is not matched as a literal, since
  \<open>clean_wildcard\<close> leaves the bar without a backslash and the pattern becomes an
  alternation. For the span \<open>x|y<unk>z\<close> and the text \<open>x\<close> the fragments are
  \<open>x|y\<close> and \<open>z\<close>, the function returns \<open>x\<close>, which differs from the span, and
  neither fragment occurs in it.
\<close>

theorem fragment_missing_from_recovered_span:
  "split (ascii ''x|y<unk>z'') default_unk = Inr [ascii ''x|y'', ascii ''z'']
   \<and> fix_unk_from_text_without_tokenizer (ascii ''x|y<unk>z'') (ascii ''x'') default_unk
       = Inr (ascii ''x'')
   \<and> ascii ''x'' \<noteq> ascii ''x|y<unk>z''
   \<and> \<not> sublist (ascii ''x|y'') (ascii ''x'')
   \<and> \<not> sublist (ascii ''z'') (ascii ''x'')"
  by (simp add: run_simps sublist_Cons_right)

section \<open>The tokenizer-assisted path on a span without the marker\<close>

text \<open>
  When the span holds no marker, no whitespace at its ends and no character that
  \<open>clean_wildcard\<close> leaves unescaped, the pattern matches the span only, and the
  tokenizer-assisted path returns the span whenever it returns.
\<close>

lemma contains_Nil: "contains [] s"
  by (cases s) simp_all

lemma split_on_no_sep: "\<not> contains sep s \<Longrightarrow> split_on sep s = [s]"
  by (induction s) auto

lemma strip_trimmed: "trimmed s \<Longrightarrow> strip s = s"
proof (cases "s = []")
  case True
  then show ?thesis by (simp add: strip_def)
next
  case False
  assume "trimmed s"
  with False have h: "\<not> isspace (hd s)" and l: "\<not> isspace (last s)" by (simp_all add: trimmed_def)
  from False h have 1: "dropWhile isspace s = s" by (cases s) auto
  from False l have "\<not> isspace (hd (rev s))" by (simp add: hd_rev)
  with False have 2: "dropWhile isspace (rev s) = rev s" by (cases "rev s") auto
  show ?thesis by (simp add: strip_def 1 2)
qed

lemma lang_lits_only: "lang (lits s) g \<Longrightarrow> g = s"
  using lang_lits [of s "[]" g] by simp

lemma with_tokenizer_identity:
  assumes no: "\<not> contains unk s" and tr: "trimmed s"
    and plain: "\<forall>c\<in>set s. c \<notin> set unescaped"
    and res: "fix_unk_from_text_with_tokenizer s text unk tok = Inr r"
  shows "r = s"
proof -
  from no have unk: "unk \<noteq> []" using contains_Nil by auto
  have mp: "match_pattern s unk = Inr (clean_wildcard s)"
    using unk by (simp add: match_pattern_def split_def split_on_no_sep [OF no] strip_trimmed [OF tr])
  have pr: "parse_re (clean_wildcard s) [] [] = Inr [lits s]"
    using parse_joined [of "[s]" wildcard True "[]" "[]"] plain by simp
  have found: "g = s" if "re_search (clean_wildcard s) t = Inr (Some g)" for t g
  proof -
    from that have "search_from (length t) [lits s] t = Some g" by (simp add: re_search_def pr)
    then have "lang (lits s) g" by (rule search_from_lang)
    then show ?thesis by (rule lang_lits_only)
  qed
  have wo: "fix_unk_from_text_without_tokenizer s text unk = Inr s"
    using no by (simp add: fix_unk_from_text_without_tokenizer_def)
  from res show ?thesis
    by (auto simp: fix_unk_from_text_with_tokenizer_def split_beta Let_def mp wo
        strip_trimmed [OF tr]
        split: sum.splits option.splits dest!: found)
qed

end
